theory Spec2Isabelle
  imports Main
begin

section \<open>The host pattern engine\<close>

text \<open>
  The extension relies on the ECMAScript \<^verbatim>\<open>RegExp\<close> built-in twice: the three scanner
  patterns of \<^verbatim>\<open>extension.ts\<close> are regular-expression literals, and every scanned
  literal is compiled with \<^verbatim>\<open>new RegExp(pattern, flags)\<close> and run with \<^verbatim>\<open>exec\<close>.
  The engine is modelled as the ECMAScript specification describes it: a pattern is a
  syntax tree, a matcher takes a match state and a continuation, alternatives are
  tried in order, quantifiers are greedy, and an iteration of a quantifier that
  consumes nothing is rejected. Strings are lists of 8-bit characters.
\<close>

datatype re =
    Empty
  | Chr char
  | Cls bool "char list"  \<comment> \<open>a character class: negated?, members\<close>
  | Dot
  | Bol
  | Eol
  | Seq re re
  | Alt re re
  | Star re
  | Plus re
  | Opt re
  | Grp nat re  \<comment> \<open>capturing group with its number\<close>

record rxmode =
  icase :: bool
  mline :: bool
  dotall :: bool

type_synonym mstate = "nat \<times> (nat \<rightharpoonup> nat \<times> nat)"

definition lineTerminator :: "char \<Rightarrow> bool" where
  "lineTerminator c = (c = CHR 0x0A \<or> c = CHR 0x0D)"

definition canonicalize :: "char \<Rightarrow> char" where
  \<comment> \<open>upper-casing of the 8-bit letters, as the flag \<^verbatim>\<open>i\<close> compares characters\<close>
  "canonicalize c =
     (let n = (of_char c :: nat) in
      if (97 \<le> n \<and> n \<le> 122) \<or> (224 \<le> n \<and> n \<le> 254 \<and> n \<noteq> 247)
      then char_of (n - 32) else c)"

definition chr_match :: "rxmode \<Rightarrow> char \<Rightarrow> char \<Rightarrow> bool" where
  "chr_match md a c = (if icase md then canonicalize a = canonicalize c else a = c)"

definition cls_match :: "rxmode \<Rightarrow> bool \<Rightarrow> char list \<Rightarrow> char \<Rightarrow> bool" where
  "cls_match md neg cs c = ((\<exists>a \<in> set cs. chr_match md a c) \<noteq> neg)"

type_synonym cont = "mstate \<Rightarrow> mstate option"

definition progress :: "nat \<Rightarrow> cont \<Rightarrow> cont" where
  \<comment> \<open>an iteration of a quantifier that ends where it began is a failure\<close>
  "progress i k y = (if fst y = i then None else k y)"

definition close_group :: "nat \<Rightarrow> nat \<Rightarrow> cont \<Rightarrow> cont" where
  "close_group n i k y = k (fst y, (snd y)(n \<mapsto> (i, fst y)))"

definition advance :: "cont \<Rightarrow> cont" where
  "advance k x = k (Suc (fst x), snd x)"

definition orelse :: "cont \<Rightarrow> cont \<Rightarrow> cont" where
  "orelse k1 k2 x = (case k1 x of Some z \<Rightarrow> Some z | None \<Rightarrow> k2 x)"

primrec repeat :: "nat \<Rightarrow> (cont \<Rightarrow> cont) \<Rightarrow> cont \<Rightarrow> cont" where
  "repeat 0 m k x = k x"
| "repeat (Suc n) m k x = orelse (m (progress (fst x) (repeat n m k))) k x"

definition star :: "nat \<Rightarrow> (cont \<Rightarrow> cont) \<Rightarrow> cont \<Rightarrow> cont" where
  \<comment> \<open>every iteration consumes a character, so no more than the rest of the input are run\<close>
  "star n m k x = repeat (Suc (n - fst x)) m k x"

primrec rmatch :: "rxmode \<Rightarrow> string \<Rightarrow> re \<Rightarrow> cont \<Rightarrow> cont" where
  "rmatch md s Empty k x = k x"
| "rmatch md s (Chr a) k x =
     (if fst x < length s \<and> chr_match md a (s ! fst x) then advance k x else None)"
| "rmatch md s (Cls neg cs) k x =
     (if fst x < length s \<and> cls_match md neg cs (s ! fst x) then advance k x else None)"
| "rmatch md s Dot k x =
     (if fst x < length s \<and> (dotall md \<or> \<not> lineTerminator (s ! fst x))
      then advance k x else None)"
| "rmatch md s Bol k x =
     (if fst x = 0 \<or> (mline md \<and> fst x \<le> length s \<and> lineTerminator (s ! (fst x - 1)))
      then k x else None)"
| "rmatch md s Eol k x =
     (if fst x = length s \<or> (mline md \<and> fst x < length s \<and> lineTerminator (s ! fst x))
      then k x else None)"
| "rmatch md s (Seq r1 r2) k x = rmatch md s r1 (rmatch md s r2 k) x"
| "rmatch md s (Alt r1 r2) k x = orelse (rmatch md s r1 k) (rmatch md s r2 k) x"
| "rmatch md s (Star r) k x = star (length s) (rmatch md s r) k x"
| "rmatch md s (Plus r) k x = rmatch md s r (star (length s) (rmatch md s r) k) x"
| "rmatch md s (Opt r) k x = orelse (rmatch md s r (progress (fst x) k)) k x"
| "rmatch md s (Grp n r) k x = rmatch md s r (close_group n (fst x) k) x"

subsection \<open>What a successful match looks like\<close>

text \<open>
  The relation \<open>sem\<close> describes the states a pattern can lead to from a start
  state, without the order in which the matcher tries them. Whatever the matcher
  returns was produced by its continuation on such a state; this is what the
  termination proofs and the facts about spans below rest on.
\<close>

primrec sem :: "rxmode \<Rightarrow> string \<Rightarrow> re \<Rightarrow> mstate \<Rightarrow> mstate \<Rightarrow> bool" where
  "sem md s Empty x y = (y = x)"
| "sem md s (Chr a) x y =
     (fst x < length s \<and> chr_match md a (s ! fst x) \<and> y = (Suc (fst x), snd x))"
| "sem md s (Cls neg cs) x y =
     (fst x < length s \<and> cls_match md neg cs (s ! fst x) \<and> y = (Suc (fst x), snd x))"
| "sem md s Dot x y = (fst x < length s \<and> y = (Suc (fst x), snd x))"
| "sem md s Bol x y = (y = x)"
| "sem md s Eol x y = (y = x \<and> (\<not> mline md \<longrightarrow> fst x = length s))"
| "sem md s (Seq r1 r2) x y = (\<exists>m. sem md s r1 x m \<and> sem md s r2 m y)"
| "sem md s (Alt r1 r2) x y = (sem md s r1 x y \<or> sem md s r2 x y)"
| "sem md s (Star r) x y = (sem md s r)\<^sup>*\<^sup>* x y"
| "sem md s (Plus r) x y = (\<exists>m. sem md s r x m \<and> (sem md s r)\<^sup>*\<^sup>* m y)"
| "sem md s (Opt r) x y = (sem md s r x y \<or> y = x)"
| "sem md s (Grp n r) x y =
     (\<exists>m. sem md s r x m \<and> y = (fst m, (snd m)(n \<mapsto> (fst x, fst m))))"

lemma repeat_sound:
  assumes m: "\<And>k x. m k x = Some z \<Longrightarrow> \<exists>y. P x y \<and> k y = Some z"
  shows "repeat n m k x = Some z \<Longrightarrow> \<exists>y. P\<^sup>*\<^sup>* x y \<and> k y = Some z"
proof (induction n arbitrary: x)
  case 0
  then have "P\<^sup>*\<^sup>* x x \<and> k x = Some z" by simp
  then show ?case by (rule exI)
next
  case (Suc n)
  show ?case
  proof (cases "m (progress (fst x) (repeat n m k)) x")
    case None
    with Suc.prems have "k x = Some z" by (simp add: orelse_def)
    then show ?thesis by blast
  next
    case (Some w)
    with Suc.prems have "m (progress (fst x) (repeat n m k)) x = Some z"
      by (simp add: orelse_def)
    from m[OF this] obtain y where y: "P x y" "progress (fst x) (repeat n m k) y = Some z"
      by blast
    from y(2) have "repeat n m k y = Some z" by (simp add: progress_def split: if_splits)
    from Suc.IH[OF this] obtain y' where "P\<^sup>*\<^sup>* y y'" "k y' = Some z" by blast
    with y(1) show ?thesis by (meson converse_rtranclp_into_rtranclp)
  qed
qed

lemma rmatch_sound:
  "rmatch md s r k x = Some z \<Longrightarrow> \<exists>y. sem md s r x y \<and> k y = Some z"
proof (induction r arbitrary: k x)
  case (Seq r1 r2)
  from Seq.prems have "rmatch md s r1 (rmatch md s r2 k) x = Some z" by simp
  from Seq.IH(1)[OF this] obtain m where m: "sem md s r1 x m" "rmatch md s r2 k m = Some z"
    by blast
  from Seq.IH(2)[OF m(2)] obtain y where y: "sem md s r2 m y" "k y = Some z" by blast
  from m(1) y(1) have "sem md s (Seq r1 r2) x y" unfolding sem.simps by blast
  with y(2) show ?case by blast
next
  case (Alt r1 r2)
  from Alt.prems have "rmatch md s r1 k x = Some z \<or> rmatch md s r2 k x = Some z"
    by (simp add: orelse_def split: option.splits)
  then show ?case using Alt.IH unfolding sem.simps by blast
next
  case (Star r)
  from Star.prems have "repeat (Suc (length s - fst x)) (rmatch md s r) k x = Some z"
    by (simp add: star_def)
  from repeat_sound[where P = "sem md s r", OF Star.IH this] show ?case
    unfolding sem.simps by blast
next
  case (Plus r)
  from Plus.prems have "rmatch md s r (star (length s) (rmatch md s r) k) x = Some z" by simp
  from Plus.IH[OF this] obtain m where m: "sem md s r x m"
    "repeat (Suc (length s - fst m)) (rmatch md s r) k m = Some z"
    unfolding star_def by blast
  from repeat_sound[where P = "sem md s r", OF Plus.IH m(2)] m(1) show ?case
    unfolding sem.simps by blast
next
  case (Opt r)
  from Opt.prems have "rmatch md s r (progress (fst x) k) x = Some z \<or> k x = Some z"
    by (simp add: orelse_def split: option.splits)
  then show ?case
  proof
    assume "rmatch md s r (progress (fst x) k) x = Some z"
    from Opt.IH[OF this] obtain y where y: "sem md s r x y" "progress (fst x) k y = Some z"
      by blast
    from y(2) have "k y = Some z" by (simp add: progress_def split: if_splits)
    with y(1) show ?thesis unfolding sem.simps by blast
  next
    assume "k x = Some z"
    then show ?thesis unfolding sem.simps by blast
  qed
next
  case (Grp n r)
  from Grp.prems have "rmatch md s r (close_group n (fst x) k) x = Some z" by simp
  from Grp.IH[OF this] obtain m where m: "sem md s r x m"
    "k (fst m, (snd m)(n \<mapsto> (fst x, fst m))) = Some z"
    unfolding close_group_def by blast
  then show ?case unfolding sem.simps by blast
next
  case Empty
  then show ?case by simp
next
  case (Chr a)
  then have "sem md s (Chr a) x (Suc (fst x), snd x) \<and> k (Suc (fst x), snd x) = Some z"
    by (simp add: advance_def split: if_splits)
  then show ?case by blast
next
  case (Cls neg cs)
  then have "sem md s (Cls neg cs) x (Suc (fst x), snd x) \<and> k (Suc (fst x), snd x) = Some z"
    by (simp add: advance_def split: if_splits)
  then show ?case by blast
next
  case Dot
  then have "sem md s Dot x (Suc (fst x), snd x) \<and> k (Suc (fst x), snd x) = Some z"
    by (simp add: advance_def split: if_splits)
  then show ?case by blast
next
  case Bol
  then have "sem md s Bol x x \<and> k x = Some z" by (simp split: if_splits)
  then show ?case by blast
next
  case Eol
  then have "sem md s Eol x x \<and> k x = Some z" by (auto split: if_splits)
  then show ?case by blast
qed

lemma sem_mono:
  "sem md s r x y \<Longrightarrow> fst x \<le> fst y \<and> (fst x \<le> length s \<longrightarrow> fst y \<le> length s)"
proof (induction r arbitrary: x y)
  case (Star r)
  from Star.prems have "(sem md s r)\<^sup>*\<^sup>* x y" by simp
  then show ?case
  proof (induction rule: rtranclp_induct)
    case base
    show ?case by simp
  next
    case (step y z)
    from Star.IH[OF step.hyps(2)] step.IH show ?case by linarith
  qed
next
  case (Plus r)
  from Plus.prems obtain m where m: "sem md s r x m" "(sem md s r)\<^sup>*\<^sup>* m y"
    unfolding sem.simps by blast
  from m(2) have "fst m \<le> fst y \<and> (fst m \<le> length s \<longrightarrow> fst y \<le> length s)"
  proof (induction rule: rtranclp_induct)
    case base
    show ?case by simp
  next
    case (step y z)
    from Plus.IH[OF step.hyps(2)] step.IH show ?case by linarith
  qed
  with Plus.IH[OF m(1)] show ?case by linarith
next
  case (Seq r1 r2)
  from Seq.prems obtain m where m: "sem md s r1 x m" "sem md s r2 m y"
    unfolding sem.simps by blast
  from Seq.IH(1)[OF m(1)] Seq.IH(2)[OF m(2)] show ?case by linarith
next
  case (Alt r1 r2)
  then show ?case unfolding sem.simps by blast
next
  case (Opt r)
  from Opt.prems have "sem md s r x y \<or> y = x" by simp
  then show ?case
  proof
    assume "sem md s r x y"
    from Opt.IH[OF this] show ?thesis .
  next
    assume "y = x"
    then show ?thesis by simp
  qed
next
  case (Grp n r)
  from Grp.prems obtain m where m: "sem md s r x m" "fst y = fst m"
    unfolding sem.simps by auto
  from Grp.IH[OF m(1)] m(2) show ?case by simp
qed auto

subsection \<open>RegExp objects and \<^verbatim>\<open>exec\<close>\<close>

text \<open>
  A \<^verbatim>\<open>RegExp\<close> object carries its source text, its flags, the mutable
  \<^verbatim>\<open>lastIndex\<close> and the compiled pattern. \<^verbatim>\<open>exec\<close> follows RegExpBuiltinExec:
  the search starts at \<^verbatim>\<open>lastIndex\<close> for a global or sticky object and at 0 otherwise,
  tries each start index in turn (only the first one when sticky), and writes
  \<^verbatim>\<open>lastIndex\<close> back only for a global or sticky object. The model returns the
  result together with the updated object.
\<close>

record RegExp =
  source :: string
  flags :: string
  lastIndex :: nat
  prog :: re

record RegExpExecArray =
  index :: nat
  group :: "nat \<Rightarrow> string option"  \<comment> \<open>\<^verbatim>\<open>match[n]\<close>; \<^verbatim>\<open>None\<close> is \<^verbatim>\<open>undefined\<close>\<close>

definition global :: "RegExp \<Rightarrow> bool" where
  "global rx = (CHR ''g'' \<in> set (flags rx))"

definition multiline :: "RegExp \<Rightarrow> bool" where
  "multiline rx = (CHR ''m'' \<in> set (flags rx))"

definition sticky :: "RegExp \<Rightarrow> bool" where
  "sticky rx = (CHR ''y'' \<in> set (flags rx))"

definition mode_of :: "string \<Rightarrow> rxmode" where
  "mode_of fl = \<lparr>icase = CHR ''i'' \<in> set fl, mline = CHR ''m'' \<in> set fl,
                 dotall = CHR ''s'' \<in> set fl\<rparr>"

definition substring :: "string \<Rightarrow> nat \<Rightarrow> nat \<Rightarrow> string" where
  "substring s a b = take (b - a) (drop a s)"

definition run :: "RegExp \<Rightarrow> string \<Rightarrow> nat \<Rightarrow> mstate option" where
  "run rx s i = rmatch (mode_of (flags rx)) s (prog rx) Some (i, Map.empty)"

primrec scan_from :: "(nat \<Rightarrow> 'a option) \<Rightarrow> nat \<Rightarrow> nat \<Rightarrow> (nat \<times> 'a) option" where
  "scan_from f i 0 = None"
| "scan_from f i (Suc n) =
     (case f i of Some y \<Rightarrow> Some (i, y) | None \<Rightarrow> scan_from f (Suc i) n)"

definition exec_array :: "string \<Rightarrow> nat \<Rightarrow> mstate \<Rightarrow> RegExpExecArray" where
  "exec_array s i y =
     \<lparr>index = i,
      group = (\<lambda>n. if n = 0 then Some (substring s i (fst y))
                   else map_option (\<lambda>(a, b). substring s a b) (snd y n))\<rparr>"

definition exec :: "RegExp \<Rightarrow> string \<Rightarrow> RegExpExecArray option \<times> RegExp" where
  "exec rx s =
     (let keep = global rx \<or> sticky rx;
          li = (if keep then lastIndex rx else 0);
          failed = (None, if keep then rx\<lparr>lastIndex := 0\<rparr> else rx)
      in if length s < li then failed
         else case (if sticky rx then map_option (Pair li) (run rx s li)
                    else scan_from (run rx s) li (Suc (length s - li))) of
                None \<Rightarrow> failed
              | Some (i, y) \<Rightarrow>
                  (Some (exec_array s i y), if keep then rx\<lparr>lastIndex := fst y\<rparr> else rx))"

definition whiteSpace :: "char list" where
  "whiteSpace = [CHR 0x09, CHR 0x0A, CHR 0x0B, CHR 0x0C, CHR 0x0D, CHR 0x20, CHR 0xA0]"

subsection \<open>The constructor \<^verbatim>\<open>new RegExp(pattern, flags)\<close>\<close>

text \<open>
  The constructor parses the pattern text and checks the flags; it throws a
  \<^verbatim>\<open>SyntaxError\<close> (here: \<^verbatim>\<open>None\<close>) when either is rejected. The parser covers
  the part of the ECMAScript pattern grammar the engine above gives a meaning to:
  disjunctions, the assertions \<^verbatim>\<open>^\<close> and \<^verbatim>\<open>$\<close>, the greedy quantifiers \<^verbatim>\<open>*\<close>,
  \<^verbatim>\<open>+\<close> and \<^verbatim>\<open>?\<close>, groups, \<^verbatim>\<open>.\<close>, character classes with ranges, and the character
  and class escapes. It is a recursive-descent parser; its recursion is bounded by a
  counter that is four times the length of the pattern, more than the depth any
  pattern of that length reaches.
\<close>

definition bslash :: char where
  "bslash = CHR 0x5C"

definition digits :: "char list" where
  "digits = ''0123456789''"

definition wordChars :: "char list" where
  "wordChars = ''abcdefghijklmnopqrstuvwxyzABCDEFGHIJKLMNOPQRSTUVWXYZ0123456789_''"

definition alnum :: "char \<Rightarrow> bool" where
  "alnum c = (c \<in> set wordChars \<and> c \<noteq> CHR ''_'')"

definition allChars :: "char list" where
  "allChars = map char_of [0 ..< (256::nat)]"

definition complement :: "char list \<Rightarrow> char list" where
  "complement cs = filter (\<lambda>c. c \<notin> set cs) allChars"

definition controlEscape :: "char \<Rightarrow> char option" where
  "controlEscape e =
     (if e = CHR ''t'' then Some (CHR 0x09) else if e = CHR ''n'' then Some (CHR 0x0A)
      else if e = CHR ''v'' then Some (CHR 0x0B) else if e = CHR ''f'' then Some (CHR 0x0C)
      else if e = CHR ''r'' then Some (CHR 0x0D) else if e = CHR ''0'' then Some (CHR 0x00)
      else if \<not> alnum e then Some e else None)"

definition atomEscape :: "char \<Rightarrow> re option" where
  "atomEscape e =
     (if e = CHR ''d'' then Some (Cls False digits) else if e = CHR ''D'' then Some (Cls True digits)
      else if e = CHR ''w'' then Some (Cls False wordChars)
      else if e = CHR ''W'' then Some (Cls True wordChars)
      else if e = CHR ''s'' then Some (Cls False whiteSpace)
      else if e = CHR ''S'' then Some (Cls True whiteSpace)
      else map_option Chr (controlEscape e))"

definition classEscape :: "char \<Rightarrow> char list option" where
  "classEscape e =
     (if e = CHR ''d'' then Some digits else if e = CHR ''D'' then Some (complement digits)
      else if e = CHR ''w'' then Some wordChars
      else if e = CHR ''W'' then Some (complement wordChars)
      else if e = CHR ''s'' then Some whiteSpace
      else if e = CHR ''S'' then Some (complement whiteSpace)
      else if e = CHR ''b'' then Some [CHR 0x08]
      else map_option (\<lambda>c. [c]) (controlEscape e))"

definition charRange :: "char \<Rightarrow> char \<Rightarrow> char list" where
  "charRange lo hi = map char_of [of_char lo ..< Suc (of_char hi :: nat)]"

fun classItems :: "string \<Rightarrow> (char list \<times> string) option" where
  "classItems [] = None"
| "classItems (c # rest) =
     (if c = CHR '']'' then Some ([], rest)
      else if c = bslash then
        (case rest of
           [] \<Rightarrow> None
         | e # rest' \<Rightarrow>
             (case classEscape e of
                None \<Rightarrow> None
              | Some cs \<Rightarrow> map_option (\<lambda>(ds, r). (cs @ ds, r)) (classItems rest')))
      else
        (case rest of
           d # hi # rest' \<Rightarrow>
             if d = CHR ''-'' \<and> hi \<noteq> CHR '']'' then
               (if hi = bslash \<or> (of_char hi :: nat) < of_char c then None
                else map_option (\<lambda>(ds, r). (charRange c hi @ ds, r)) (classItems rest'))
             else map_option (\<lambda>(ds, r). (c # ds, r)) (classItems rest)
         | _ \<Rightarrow> map_option (\<lambda>(ds, r). (c # ds, r)) (classItems rest)))"

definition parseClass :: "string \<Rightarrow> (re \<times> string) option" where
  \<comment> \<open>the input begins after the opening bracket\<close>
  "parseClass s =
     (case s of
        c # rest \<Rightarrow>
          if c = CHR ''^'' then map_option (\<lambda>(cs, r). (Cls True cs, r)) (classItems rest)
          else map_option (\<lambda>(cs, r). (Cls False cs, r)) (classItems s)
      | [] \<Rightarrow> None)"

definition quantify :: "re \<Rightarrow> string \<Rightarrow> (re \<times> string) option" where
  \<comment> \<open>an optional quantifier after an atom; lazy and counted quantifiers are not covered\<close>
  "quantify r s =
     (case s of
        [] \<Rightarrow> Some (r, s)
      | c # rest \<Rightarrow>
          if c = CHR ''{'' then None
          else if c = CHR ''*'' \<or> c = CHR ''+'' \<or> c = CHR ''?'' then
            (case rest of
               c' # _ \<Rightarrow>
                 if c' = CHR ''?'' then None
                 else Some (if c = CHR ''*'' then Star r else if c = CHR ''+'' then Plus r else Opt r, rest)
             | [] \<Rightarrow>
                 Some (if c = CHR ''*'' then Star r else if c = CHR ''+'' then Plus r else Opt r, rest))
          else Some (r, s))"

definition parseAtom :: "char \<Rightarrow> string \<Rightarrow> (re \<times> string) option" where
  \<comment> \<open>every atom but a group: the first character and the rest of the input\<close>
  "parseAtom c rest =
     (if c = CHR ''.'' then Some (Dot, rest)
      else if c = bslash then
        (case rest of [] \<Rightarrow> None | e # rest' \<Rightarrow> map_option (\<lambda>r. (r, rest')) (atomEscape e))
      else if c = CHR ''['' then parseClass rest
      else if c \<in> set ''*+?{)|'' then None
      else Some (Chr c, rest))"

fun parseDisjunction :: "nat \<Rightarrow> nat \<Rightarrow> string \<Rightarrow> (re \<times> nat \<times> string) option"
  and parseAlternative :: "nat \<Rightarrow> nat \<Rightarrow> string \<Rightarrow> (re \<times> nat \<times> string) option"
  and parseTerm :: "nat \<Rightarrow> nat \<Rightarrow> string \<Rightarrow> (re \<times> nat \<times> string) option" where
  "parseDisjunction 0 g s = None"
| "parseDisjunction (Suc f) g s =
     (case parseAlternative f g s of
        None \<Rightarrow> None
      | Some (r1, g1, rest) \<Rightarrow>
          (case rest of
             [] \<Rightarrow> Some (r1, g1, rest)
           | c # rest' \<Rightarrow>
               if c = CHR ''|'' then
                 (case parseDisjunction f g1 rest' of
                    None \<Rightarrow> None
                  | Some (r2, g2, rest'') \<Rightarrow> Some (Alt r1 r2, g2, rest''))
               else Some (r1, g1, rest)))"
| "parseAlternative 0 g s = None"
| "parseAlternative (Suc f) g s =
     (case s of
        [] \<Rightarrow> Some (Empty, g, s)
      | c # _ \<Rightarrow>
          if c = CHR ''|'' \<or> c = CHR '')'' then Some (Empty, g, s)
          else
            (case parseTerm f g s of
               None \<Rightarrow> None
             | Some (t, g1, rest) \<Rightarrow>
                 (case parseAlternative f g1 rest of
                    None \<Rightarrow> None
                  | Some (r, g2, rest') \<Rightarrow> Some (Seq t r, g2, rest'))))"
| "parseTerm 0 g s = None"
| "parseTerm (Suc f) g s =
     (case s of
        [] \<Rightarrow> None
      | c # rest \<Rightarrow>
          if c = CHR ''^'' then Some (Bol, g, rest)
          else if c = CHR ''$'' then Some (Eol, g, rest)
          else if c = CHR ''('' then
            (let capturing = (take 2 rest \<noteq> ''?:'') in
             if \<not> capturing \<or> take 1 rest \<noteq> ''?'' then
               (case parseDisjunction f (if capturing then Suc g else g)
                       (if capturing then rest else drop 2 rest) of
                  None \<Rightarrow> None
                | Some (r, g1, rest') \<Rightarrow>
                    (case rest' of
                       [] \<Rightarrow> None
                     | c' # rest'' \<Rightarrow>
                         if c' = CHR '')'' then
                           map_option (\<lambda>(q, t). (q, g1, t))
                             (quantify (if capturing then Grp g r else r) rest'')
                         else None))
             else None)
          else
            (case parseAtom c rest of
               None \<Rightarrow> None
             | Some (a, rest') \<Rightarrow> map_option (\<lambda>(q, t). (q, g, t)) (quantify a rest')))"

definition parsePattern :: "string \<Rightarrow> re option" where
  "parsePattern p =
     (case parseDisjunction (4 * length p + 4) 1 p of
        Some (r, g, []) \<Rightarrow> Some r
      | _ \<Rightarrow> None)"

definition flagChars :: "char list" where
  "flagChars = ''dgimsuvy''"

definition validFlags :: "string \<Rightarrow> bool" where
  "validFlags fl =
     (set fl \<subseteq> set flagChars \<and> distinct fl \<and> \<not> (CHR ''u'' \<in> set fl \<and> CHR ''v'' \<in> set fl))"

definition RegExp_new :: "string \<Rightarrow> string \<Rightarrow> RegExp option" where
  \<comment> \<open>\<^verbatim>\<open>source\<close> of the empty pattern is \<^verbatim>\<open>(?:)\<close>; \<^verbatim>\<open>flags\<close> lists the flags in their fixed order\<close>
  "RegExp_new pattern fl =
     (if validFlags fl then
        (case parsePattern pattern of
           None \<Rightarrow> None
         | Some r \<Rightarrow>
             Some \<lparr>source = (if pattern = [] then ''(?:)'' else pattern),
                   flags = filter (\<lambda>c. c \<in> set fl) flagChars,
                   lastIndex = 0, prog = r\<rparr>)
      else None)"

text \<open>
  The parser is a fragment of the host's: patterns with counted or lazy quantifiers,
  word boundaries, look-around, back-references, named groups or numeric escapes are
  rejected here though the host accepts them, and the flags \<^verbatim>\<open>u\<close> and \<^verbatim>\<open>v\<close> do not
  restrict the escapes. The extension itself never looks into a pattern: it calls the
  constructor and keeps or drops what it gets. Its functions are therefore written
  over an arbitrary constructor, the argument \<open>ctor\<close> below, and the general theorems
  hold for every constructor, the host's included; \<open>RegExp_new\<close> is the constructor
  used where the program is run on a concrete literal, and in the statements on
  flag augmentation, which need the constructor to rebuild an object from its own
  \<^verbatim>\<open>source\<close>.
\<close>

type_synonym Constructor = "string \<Rightarrow> string \<Rightarrow> RegExp option"

subsection \<open>Facts about \<^verbatim>\<open>exec\<close>\<close>

lemma run_bounds:
  assumes "run rx s i = Some y"
  shows "i \<le> fst y \<and> (i \<le> length s \<longrightarrow> fst y \<le> length s)"
proof -
  from assms obtain y' where "sem (mode_of (flags rx)) s (prog rx) (i, Map.empty) y'" "Some y' = Some y"
    unfolding run_def by (blast dest: rmatch_sound)
  then show ?thesis using sem_mono by fastforce
qed

lemma scan_from_Some:
  "scan_from f i n = Some (j, y) \<Longrightarrow> i \<le> j \<and> j < i + n \<and> f j = Some y"
  by (induction n arbitrary: i) (fastforce split: option.splits)+

definition keeps :: "RegExp \<Rightarrow> bool" where
  "keeps rx = (global rx \<or> sticky rx)"

lemma exec_Some:
  assumes "exec rx s = (Some m, rx')"
  shows "\<exists>i y. m = exec_array s i y \<and> run rx s i = Some y \<and> i \<le> length s \<and>
           (if keeps rx then lastIndex rx \<le> i \<and> rx' = rx\<lparr>lastIndex := fst y\<rparr> else rx' = rx)"
proof -
  define li where "li = (if keeps rx then lastIndex rx else 0)"
  define found where "found = (if sticky rx then map_option (Pair li) (run rx s li)
                    else scan_from (run rx s) li (Suc (length s - li)))"
  from assms have le: "li \<le> length s"
    by (auto simp: exec_def Let_def keeps_def li_def split: if_splits)
  with assms obtain i y where iy: "found = Some (i, y)" "m = exec_array s i y"
    "rx' = (if keeps rx then rx\<lparr>lastIndex := fst y\<rparr> else rx)"
    by (auto simp: exec_def Let_def keeps_def li_def found_def split: if_splits option.splits)
  have "run rx s i = Some y \<and> li \<le> i \<and> i \<le> length s"
  proof (cases "sticky rx")
    case True
    with iy(1) le show ?thesis by (auto simp: found_def)
  next
    case False
    with iy(1) have "scan_from (run rx s) li (Suc (length s - li)) = Some (i, y)"
      by (simp add: found_def)
    from scan_from_Some[OF this] le show ?thesis by auto
  qed
  with iy(2,3) have "m = exec_array s i y \<and> run rx s i = Some y \<and> i \<le> length s \<and>
           (if keeps rx then lastIndex rx \<le> i \<and> rx' = rx\<lparr>lastIndex := fst y\<rparr> else rx' = rx)"
    by (auto simp: li_def split: if_splits)
  then show ?thesis by blast
qed

lemma exec_None:
  "exec rx s = (None, rx') \<Longrightarrow> rx' = (if keeps rx then rx\<lparr>lastIndex := 0\<rparr> else rx)"
  by (auto simp: exec_def Let_def keeps_def split: if_splits option.splits)

lemma exec_flags: "flags (snd (exec rx s)) = flags rx"
  by (auto simp: exec_def Let_def split: if_splits option.splits)

lemma exec_progress:
  assumes "exec rx s = (Some m, rx')" "keeps rx"
  shows "lastIndex rx \<le> index m \<and> index m \<le> lastIndex rx' \<and> lastIndex rx' \<le> length s
         \<and> lastIndex rx' = index m + length (the (group m 0))"
proof -
  from exec_Some[OF assms(1)] assms(2) obtain i y where
    *: "m = exec_array s i y" "run rx s i = Some y" "i \<le> length s" "lastIndex rx \<le> i"
       "rx' = rx\<lparr>lastIndex := fst y\<rparr>" by auto
  from run_bounds[OF *(2)] *(3) have "i \<le> fst y" "fst y \<le> length s" by auto
  with * show ?thesis by (simp add: exec_array_def substring_def)
qed

section \<open>The literal scanner (\<^verbatim>\<open>extension.ts\<close>)\<close>

text \<open>
  The three scanner patterns, written as the syntax trees of the literals
  \<^verbatim>\<open>regexRegex\<close>, \<^verbatim>\<open>phpRegexRegex\<close> and \<^verbatim>\<open>haxeRegexRegex\<close>. All three carry the
  flag \<^verbatim>\<open>g\<close>. The class \<^verbatim>\<open>\\s\<close> is the ECMAScript white space and line terminator
  set restricted to 8-bit characters.
\<close>

definition punct :: "char list" where
  "punct = ''()={},:?;''"

definition slash :: char where
  "slash = CHR ''/''"

definition body :: re where
  \<comment> \<open>\<^verbatim>\<open>(?:\\\\\\/|\\[[^\\]]*\\]|[^/])+\<close>\<close>
  "body = Plus (Alt (Seq (Chr (CHR 0x5C)) (Chr slash))
               (Alt (Seq (Chr CHR ''['') (Seq (Star (Cls True '']'')) (Chr CHR '']'')))
                    (Cls True [slash])))"

definition quote :: re where
  \<comment> \<open>\<^verbatim>\<open>['|"]\<close>\<close>
  "quote = Cls False [CHR 0x27, CHR ''|'', CHR 0x22]"

definition boundaryBefore :: re where
  \<comment> \<open>\<^verbatim>\<open>^|\\s|[()={},:?;]\<close>, the content of group 1\<close>
  "boundaryBefore = Alt Bol (Alt (Cls False whiteSpace) (Cls False punct))"

definition boundaryAfter :: "char list \<Rightarrow> re" where
  \<comment> \<open>\<^verbatim>\<open>\\s|[()={},:?;]|$\<close>, the content of group 5; the Haxe pattern adds \<^verbatim>\<open>.\<close> to the class\<close>
  "boundaryAfter extra = Alt (Cls False whiteSpace) (Alt (Cls False (extra @ punct)) Eol)"

definition delimited :: "char list \<Rightarrow> re" where
  \<comment> \<open>\<^verbatim>\<open>\\/(body)\\/([flags]*)\<close> with groups 3 and 4\<close>
  "delimited fl =
     Seq (Chr slash) (Seq (Grp 3 body) (Seq (Chr slash) (Grp 4 (Star (Cls False fl)))))"

definition regexRegex :: re where
  "regexRegex =
     Seq (Grp 1 boundaryBefore)
    (Seq (Grp 2 (delimited ''gimuy''))
         (Grp 5 (boundaryAfter [])))"

definition phpRegexRegex :: re where
  "phpRegexRegex =
     Seq (Grp 1 boundaryBefore)
    (Seq quote
    (Seq (Grp 2 (delimited ''gimuy''))
    (Seq quote
         (Grp 5 (boundaryAfter [])))))"

definition haxeRegexRegex :: re where
  "haxeRegexRegex =
     Seq (Grp 1 boundaryBefore)
    (Seq (Grp 2 (Seq (Chr CHR ''~'') (delimited ''gimsu'')))
         (Grp 5 (boundaryAfter ''.'')))"

definition getRegexRegex :: "string \<Rightarrow> re" where
  "getRegexRegex languageId =
     (if languageId = ''haxe'' then haxeRegexRegex
      else if languageId = ''php'' then phpRegexRegex
      else regexRegex)"

definition scanner :: "string \<Rightarrow> nat \<Rightarrow> RegExp" where
  \<comment> \<open>the module-level regex object for a language, with its current \<^verbatim>\<open>lastIndex\<close>\<close>
  "scanner languageId li =
     \<lparr>source = [], flags = ''g'', lastIndex = li, prog = getRegexRegex languageId\<rparr>"

subsection \<open>The shape of a scanner match\<close>

text \<open>
  Every match of one of the three scanner patterns has all five groups set, and
  they lie in the line as the pattern spells them: group 1, then (in the PHP
  pattern) a character of the class \<^verbatim>\<open>['|"]\<close>, then group 2, which is the optional
  \<^verbatim>\<open>~\<close> of Haxe, a slash, group 3, a slash and group 4, then the second character of
  that class in the PHP pattern, then group 5.
\<close>

primrec groups :: "re \<Rightarrow> nat set" where
  "groups Empty = {}"
| "groups (Chr a) = {}"
| "groups (Cls neg cs) = {}"
| "groups Dot = {}"
| "groups Bol = {}"
| "groups Eol = {}"
| "groups (Seq r1 r2) = groups r1 \<union> groups r2"
| "groups (Alt r1 r2) = groups r1 \<union> groups r2"
| "groups (Star r) = groups r"
| "groups (Plus r) = groups r"
| "groups (Opt r) = groups r"
| "groups (Grp n r) = insert n (groups r)"

lemma sem_caps:
  "sem md s r x y \<Longrightarrow> n \<notin> groups r \<Longrightarrow> snd y n = snd x n"
proof (induction r arbitrary: x y)
  case (Star r)
  from Star.prems(1) have "(sem md s r)\<^sup>*\<^sup>* x y" by simp
  then show ?case
  proof (induction rule: rtranclp_induct)
    case base
    show ?case by simp
  next
    case (step y z)
    from Star.IH[OF step.hyps(2)] Star.prems(2) step.IH show ?case by simp
  qed
next
  case (Plus r)
  from Plus.prems(1) obtain m where m: "sem md s r x m" "(sem md s r)\<^sup>*\<^sup>* m y"
    unfolding sem.simps by blast
  from m(2) have "snd y n = snd m n"
  proof (induction rule: rtranclp_induct)
    case base
    show ?case by simp
  next
    case (step y z)
    from Plus.IH[OF step.hyps(2)] Plus.prems(2) step.IH show ?case by simp
  qed
  with Plus.IH[OF m(1)] Plus.prems(2) show ?case by simp
next
  case (Seq r1 r2)
  from Seq.prems(1) obtain m where m: "sem md s r1 x m" "sem md s r2 m y"
    unfolding sem.simps by blast
  from Seq.IH(1)[OF m(1)] Seq.IH(2)[OF m(2)] Seq.prems(2) show ?case by simp
next
  case (Alt r1 r2)
  from Alt.prems(1) have "sem md s r1 x y \<or> sem md s r2 x y" by simp
  then show ?case
  proof
    assume "sem md s r1 x y"
    from Alt.IH(1)[OF this] Alt.prems(2) show ?thesis by simp
  next
    assume "sem md s r2 x y"
    from Alt.IH(2)[OF this] Alt.prems(2) show ?thesis by simp
  qed
next
  case (Opt r)
  from Opt.prems(1) have "sem md s r x y \<or> y = x" by simp
  then show ?case
  proof
    assume "sem md s r x y"
    from Opt.IH[OF this] Opt.prems(2) show ?thesis by simp
  next
    assume "y = x"
    then show ?thesis by simp
  qed
next
  case (Grp k r)
  from Grp.prems(1) obtain m where m: "sem md s r x m" "snd y = (snd m)(k \<mapsto> (fst x, fst m))"
    unfolding sem.simps by auto
  from Grp.IH[OF m(1)] Grp.prems(2) m(2) show ?case by simp
qed auto

lemma sem_plain:
  assumes "sem md s r x y" "groups r = {}"
  shows "snd y = snd x \<and> fst x \<le> fst y \<and> (fst x \<le> length s \<longrightarrow> fst y \<le> length s)"
proof -
  have "snd y n = snd x n" for n using sem_caps[OF assms(1)] assms(2) by simp
  then have "snd y = snd x" by (rule ext)
  with sem_mono[OF assms(1)] show ?thesis by simp
qed

lemma sem_Grp_plain:
  assumes "sem md s (Grp n r) x y" "groups r = {}"
  shows "snd y = (snd x)(n \<mapsto> (fst x, fst y)) \<and> fst x \<le> fst y \<and>
         (fst x \<le> length s \<longrightarrow> fst y \<le> length s)"
proof -
  from assms(1) obtain m where m: "sem md s r x m" "y = (fst m, (snd m)(n \<mapsto> (fst x, fst m)))"
    unfolding sem.simps by blast
  from sem_plain[OF m(1) assms(2)] m(2) show ?thesis by simp
qed

lemma sem_Chr:
  assumes "sem md s (Chr a) x y" "\<not> icase md"
  shows "fst x < length s \<and> s ! fst x = a \<and> fst y = Suc (fst x) \<and> snd y = snd x"
  using assms by (auto simp: chr_match_def)

lemma sem_Cls:
  assumes "sem md s (Cls False cs) x y" "\<not> icase md"
  shows "fst x < length s \<and> s ! fst x \<in> set cs \<and> fst y = Suc (fst x) \<and> snd y = snd x"
  using assms by (auto simp: cls_match_def chr_match_def)

lemma groups_body [simp]: "groups body = {}"
  by (simp add: body_def)

lemma groups_boundaryBefore [simp]: "groups boundaryBefore = {}"
  by (simp add: boundaryBefore_def)

lemma groups_boundaryAfter [simp]: "groups (boundaryAfter extra) = {}"
  by (simp add: boundaryAfter_def)

lemma sem_delimited:
  assumes "sem md s (delimited fl) x y" "\<not> icase md"
  shows "\<exists>b. snd y = (snd x)(3 \<mapsto> (Suc (fst x), b), 4 \<mapsto> (Suc b, fst y)) \<and>
             s ! fst x = slash \<and> s ! b = slash \<and> Suc (fst x) \<le> b \<and> Suc b \<le> fst y \<and>
             fst y \<le> length s"
proof -
  from assms(1) obtain x1 x2 x3 where
    1: "sem md s (Chr slash) x x1" and
    2: "sem md s (Grp 3 body) x1 x2" and
    3: "sem md s (Chr slash) x2 x3" and
    4: "sem md s (Grp 4 (Star (Cls False fl))) x3 y"
    unfolding delimited_def sem.simps(7) by blast
  note c1 = sem_Chr[OF 1 assms(2)]
  have c2: "snd x2 = (snd x1)(3 \<mapsto> (fst x1, fst x2)) \<and> fst x1 \<le> fst x2"
    using sem_Grp_plain[OF 2] by simp
  note c3 = sem_Chr[OF 3 assms(2)]
  have c4: "snd y = (snd x3)(4 \<mapsto> (fst x3, fst y)) \<and> fst x3 \<le> fst y \<and>
         (fst x3 \<le> length s \<longrightarrow> fst y \<le> length s)"
    using sem_Grp_plain[OF 4] by simp
  have "snd y = (snd x)(3 \<mapsto> (Suc (fst x), fst x2), 4 \<mapsto> (Suc (fst x2), fst y)) \<and>
             s ! fst x = slash \<and> s ! fst x2 = slash \<and> Suc (fst x) \<le> fst x2 \<and>
             Suc (fst x2) \<le> fst y \<and> fst y \<le> length s"
    using c1 c2 c3 c4 by auto
  then show ?thesis by blast
qed

definition quoteLen :: "string \<Rightarrow> nat" where
  "quoteLen languageId = (if languageId \<noteq> ''haxe'' \<and> languageId = ''php'' then 1 else 0)"

definition sigilLen :: "string \<Rightarrow> nat" where
  "sigilLen languageId = (if languageId = ''haxe'' then 1 else 0)"

definition shape :: "string \<Rightarrow> string \<Rightarrow> nat \<Rightarrow> mstate \<Rightarrow> nat \<Rightarrow> nat \<Rightarrow> nat \<Rightarrow> bool" where
  "shape languageId s i y p b c =
     (let q = quoteLen languageId; a = p + q + sigilLen languageId in
      snd y 1 = Some (i, p) \<and> snd y 2 = Some (p + q, c) \<and> snd y 3 = Some (Suc a, b) \<and>
      snd y 4 = Some (Suc b, c) \<and> (\<exists>e. snd y 5 = Some (e, fst y)) \<and>
      i \<le> p \<and> Suc a \<le> b \<and> Suc b \<le> c \<and> c + q \<le> fst y \<and> fst y \<le> length s \<and>
      s ! a = slash \<and> s ! b = slash)"

lemma not_icase_scanner [simp]: "\<not> icase (mode_of ''g'')"
  by (simp add: mode_of_def)

lemma sem_regexRegex:
  assumes "sem (mode_of ''g'') s regexRegex (i, Map.empty) y"
  shows "\<exists>p b c. shape ''javascript'' s i y p b c"
proof -
  let ?md = "mode_of ''g''"
  from assms obtain y1 y2 m where
    1: "sem ?md s (Grp 1 boundaryBefore) (i, Map.empty) y1" and
    2: "sem ?md s (delimited ''gimuy'') y1 m" and
    y2: "y2 = (fst m, (snd m)(2 \<mapsto> (fst y1, fst m)))" and
    5: "sem ?md s (Grp 5 (boundaryAfter [])) y2 y"
    unfolding regexRegex_def sem.simps(7) sem.simps(12) by blast
  have c1: "snd y1 = Map.empty(1 \<mapsto> (i, fst y1)) \<and> i \<le> fst y1"
    using sem_Grp_plain[OF 1] by simp
  from sem_delimited[OF 2] obtain b where
    b: "snd m = (snd y1)(3 \<mapsto> (Suc (fst y1), b), 4 \<mapsto> (Suc b, fst m))"
       "s ! fst y1 = slash" "s ! b = slash" "Suc (fst y1) \<le> b" "Suc b \<le> fst m"
       "fst m \<le> length s" by auto
  have c5: "snd y = (snd y2)(5 \<mapsto> (fst y2, fst y)) \<and> fst y2 \<le> fst y \<and>
         (fst y2 \<le> length s \<longrightarrow> fst y \<le> length s)"
    using sem_Grp_plain[OF 5] by simp
  have "shape ''javascript'' s i y (fst y1) b (fst m)"
    using c1 b c5 y2 by (simp add: shape_def quoteLen_def sigilLen_def)
  then show ?thesis by blast
qed

lemma sem_haxeRegexRegex:
  assumes "sem (mode_of ''g'') s haxeRegexRegex (i, Map.empty) y"
  shows "\<exists>p b c. shape ''haxe'' s i y p b c \<and> s ! p = CHR ''~''"
proof -
  let ?md = "mode_of ''g''"
  from assms obtain y1 y2 t m where
    1: "sem ?md s (Grp 1 boundaryBefore) (i, Map.empty) y1" and
    t: "sem ?md s (Chr CHR ''~'') y1 t" and
    2: "sem ?md s (delimited ''gimsu'') t m" and
    y2: "y2 = (fst m, (snd m)(2 \<mapsto> (fst y1, fst m)))" and
    5: "sem ?md s (Grp 5 (boundaryAfter ''.'')) y2 y"
    unfolding haxeRegexRegex_def sem.simps(7) sem.simps(12) by blast
  have c1: "snd y1 = Map.empty(1 \<mapsto> (i, fst y1)) \<and> i \<le> fst y1"
    using sem_Grp_plain[OF 1] by simp
  have ct: "s ! fst y1 = CHR ''~'' \<and> fst t = Suc (fst y1) \<and> snd t = snd y1"
    using sem_Chr[OF t] by simp
  from sem_delimited[OF 2] obtain b where
    b: "snd m = (snd t)(3 \<mapsto> (Suc (fst t), b), 4 \<mapsto> (Suc b, fst m))"
       "s ! fst t = slash" "s ! b = slash" "Suc (fst t) \<le> b" "Suc b \<le> fst m"
       "fst m \<le> length s" by auto
  have c5: "snd y = (snd y2)(5 \<mapsto> (fst y2, fst y)) \<and> fst y2 \<le> fst y \<and>
         (fst y2 \<le> length s \<longrightarrow> fst y \<le> length s)"
    using sem_Grp_plain[OF 5] by simp
  have "shape ''haxe'' s i y (fst y1) b (fst m) \<and> s ! fst y1 = CHR ''~''"
    using c1 ct b c5 y2 by (simp add: shape_def quoteLen_def sigilLen_def)
  then show ?thesis by blast
qed

lemma sem_phpRegexRegex:
  assumes "sem (mode_of ''g'') s phpRegexRegex (i, Map.empty) y"
  shows "\<exists>p b c. shape ''php'' s i y p b c \<and>
           s ! p \<in> {CHR 0x27, CHR ''|'', CHR 0x22} \<and> s ! c \<in> {CHR 0x27, CHR ''|'', CHR 0x22}"
proof -
  let ?md = "mode_of ''g''"
  from assms obtain y1 y2 t u m where
    1: "sem ?md s (Grp 1 boundaryBefore) (i, Map.empty) y1" and
    t: "sem ?md s quote y1 t" and
    2: "sem ?md s (delimited ''gimuy'') t m" and
    y2: "y2 = (fst m, (snd m)(2 \<mapsto> (fst t, fst m)))" and
    u: "sem ?md s quote y2 u" and
    5: "sem ?md s (Grp 5 (boundaryAfter [])) u y"
    unfolding phpRegexRegex_def sem.simps(7) sem.simps(12) by blast
  have c1: "snd y1 = Map.empty(1 \<mapsto> (i, fst y1)) \<and> i \<le> fst y1"
    using sem_Grp_plain[OF 1] by simp
  have ct: "s ! fst y1 \<in> {CHR 0x27, CHR ''|'', CHR 0x22} \<and> fst t = Suc (fst y1) \<and> snd t = snd y1"
    using sem_Cls[OF t[unfolded quote_def]] by simp
  from sem_delimited[OF 2] obtain b where
    b: "snd m = (snd t)(3 \<mapsto> (Suc (fst t), b), 4 \<mapsto> (Suc b, fst m))"
       "s ! fst t = slash" "s ! b = slash" "Suc (fst t) \<le> b" "Suc b \<le> fst m"
       "fst m \<le> length s" by auto
  have cu: "s ! fst y2 \<in> {CHR 0x27, CHR ''|'', CHR 0x22} \<and> fst u = Suc (fst y2) \<and>
        snd u = snd y2 \<and> fst y2 < length s"
    using sem_Cls[OF u[unfolded quote_def]] by simp
  have c5: "snd y = (snd u)(5 \<mapsto> (fst u, fst y)) \<and> fst u \<le> fst y \<and>
         (fst u \<le> length s \<longrightarrow> fst y \<le> length s)"
    using sem_Grp_plain[OF 5] by simp
  have "shape ''php'' s i y (fst y1) b (fst m) \<and>
      s ! fst y1 \<in> {CHR 0x27, CHR ''|'', CHR 0x22} \<and> s ! fst m \<in> {CHR 0x27, CHR ''|'', CHR 0x22}"
    using c1 ct b cu c5 y2 by (simp add: shape_def quoteLen_def sigilLen_def)
  then show ?thesis by blast
qed

lemma run_scanner_shape:
  assumes "run (scanner languageId li) s i = Some y"
  shows "\<exists>p b c. shape languageId s i y p b c"
proof -
  from assms have "sem (mode_of ''g'') s (getRegexRegex languageId) (i, Map.empty) y"
    unfolding run_def scanner_def by (auto dest: rmatch_sound)
  then show ?thesis
    using sem_regexRegex[of s i y] sem_phpRegexRegex[of s i y] sem_haxeRegexRegex[of s i y]
    by (auto simp: getRegexRegex_def shape_def quoteLen_def sigilLen_def split: if_splits)
qed


lemma global_scanner [simp]: "keeps (scanner languageId li)"
  by (simp add: keeps_def global_def scanner_def)

lemma exec_scanner_progress:
  assumes "exec (scanner languageId li) s = (Some m, rx')"
  shows "li < lastIndex rx' \<and> lastIndex rx' \<le> length s \<and> rx' = scanner languageId (lastIndex rx')"
proof -
  from exec_Some[OF assms] obtain i y where
    r: "run (scanner languageId li) s i = Some y" and
    c: "if keeps (scanner languageId li)
        then lastIndex (scanner languageId li) \<le> i \<and> rx' = (scanner languageId li)\<lparr>lastIndex := fst y\<rparr>
        else rx' = scanner languageId li"
    by blast
  from c have "lastIndex (scanner languageId li) \<le> i \<and>
      rx' = (scanner languageId li)\<lparr>lastIndex := fst y\<rparr>"
    by simp
  then have *: "li \<le> i" "rx' = scanner languageId (fst y)"
    by (simp_all add: scanner_def)
  from run_scanner_shape[OF r] obtain p b c where "shape languageId s i y p b c" by blast
  then have "i < fst y" "fst y \<le> length s" by (auto simp: shape_def Let_def)
  with * show ?thesis by (simp add: scanner_def)
qed

section \<open>Documents, views and the host window\<close>

text \<open>
  What the extension reads from the editor host. A document has the path of its URI,
  a language identifier and its text; lines end with a line feed. A text editor is an
  object of the host: the model names it by a number and keeps its current properties
  in a table, so that the entry of the tracking map and the list of visible editors
  speak of the same object. The host keeps, for every editor and each of the two
  decoration types, the list of ranges last passed to \<^verbatim>\<open>setDecorations\<close>.
\<close>

datatype Position = Position (line: nat) (character: nat)

datatype Range = Range (rangeStart: Position) (rangeEnd: Position)

record TextDocument =
  fsPath :: string
  languageId :: string
  getText :: string

fun splitLines :: "string \<Rightarrow> string list" where
  "splitLines [] = [[]]"
| "splitLines (c # cs) =
     (if c = CHR 0x0A then [] # splitLines cs
      else (case splitLines cs of l # ls \<Rightarrow> (c # l) # ls | [] \<Rightarrow> [[c]]))"

definition lineCount :: "TextDocument \<Rightarrow> nat" where
  "lineCount d = length (splitLines (getText d))"

definition lineAt :: "TextDocument \<Rightarrow> nat \<Rightarrow> string option" where
  \<comment> \<open>the text of a line; the host throws for a line that is not in the document\<close>
  "lineAt d n = (if n < lineCount d then Some (splitLines (getText d) ! n) else None)"

fun positionFrom :: "string \<Rightarrow> nat \<Rightarrow> nat \<Rightarrow> nat \<Rightarrow> Position" where
  "positionFrom s 0 l c = Position l c"
| "positionFrom [] (Suc n) l c = Position l c"
| "positionFrom (x # xs) (Suc n) l c =
     (if x = CHR 0x0A then positionFrom xs n (Suc l) 0 else positionFrom xs n l (Suc c))"

definition positionAt :: "TextDocument \<Rightarrow> nat \<Rightarrow> Position" where
  \<comment> \<open>the position of a character offset; an offset past the end is the end\<close>
  "positionAt d offset = positionFrom (getText d) offset 0 0"

type_synonym TextEditor = nat

record Editor =
  document :: TextDocument
  viewColumn :: "nat option"  \<comment> \<open>\<^verbatim>\<open>None\<close> when \<^verbatim>\<open>viewColumn\<close> is not a number\<close>
  anchor :: Position  \<comment> \<open>\<^verbatim>\<open>selection.anchor\<close>\<close>

datatype DecorationType = regexHighlight | matchHighlight

type_synonym Decorations = "TextEditor \<Rightarrow> DecorationType \<Rightarrow> Range list"

definition setDecorations ::
  "TextEditor \<Rightarrow> DecorationType \<Rightarrow> Range list \<Rightarrow> Decorations \<Rightarrow> Decorations" where
  "setDecorations ed ty ranges decos = decos(ed := (decos ed)(ty := ranges))"

section \<open>\<^verbatim>\<open>RegexMatchDecorator.ts\<close>\<close>

record RegexMatch =
  rmDocument :: TextDocument  \<comment> \<open>the field \<^verbatim>\<open>document\<close>\<close>
  regex :: RegExp
  rmRange :: Range  \<comment> \<open>the field \<^verbatim>\<open>range\<close>\<close>

datatype RegexMatchDecorator = RegexMatchDecorator (editor: TextEditor)

definition str :: "RegExpExecArray \<Rightarrow> nat \<Rightarrow> string" where
  \<comment> \<open>\<^verbatim>\<open>match[n]\<close> where the code takes it for a string; group 0 is always one, and so
      are the five groups of a scanner match (\<open>scanner_match_groups\<close> below)\<close>
  "str m n = (case group m n of Some t \<Rightarrow> t | None \<Rightarrow> [])"

definition addGM :: "Constructor \<Rightarrow> RegExp \<Rightarrow> bool \<Rightarrow> (bool \<times> RegExp) option" where
  \<comment> \<open>the result is the object to evaluate with, and whether it is a new object rather
      than the argument itself; \<^verbatim>\<open>None\<close> when the constructor throws\<close>
  "addGM ctor rx addGMEnabled =
     (if \<not> addGMEnabled \<or> (global rx \<and> multiline rx) then Some (False, rx)
      else
        let flags0 = flags rx;
            flags1 = (if \<not> global rx then flags0 @ ''g'' else flags0);
            flags2 = (if \<not> multiline rx then flags1 @ ''m'' else flags1)
        in map_option (Pair True) (ctor (source rx) flags2))"

definition matchRange :: "TextDocument \<Rightarrow> RegExpExecArray \<Rightarrow> Range" where
  "matchRange d m =
     Range (positionAt d (index m)) (positionAt d (index m + length (str m 0)))"

definition skipEmpty :: "RegExp \<Rightarrow> RegExpExecArray \<Rightarrow> RegExp" where
  \<comment> \<open>\<^verbatim>\<open>if (regex.lastIndex === match.index) regex.lastIndex++\<close>\<close>
  "skipEmpty rx m = (if lastIndex rx = index m then rx\<lparr>lastIndex := lastIndex rx + 1\<rparr> else rx)"

lemma findMatches_decrease:
  assumes "global rx \<or> ms = []" "exec rx (getText d) = (Some m, rx')"
  shows "(if global (skipEmpty rx' m) then Suc (length (getText d)) - lastIndex (skipEmpty rx' m)
          else if ms @ [matchRange d m] = [] then 1 else 0)
       < (if global rx then Suc (length (getText d)) - lastIndex rx
          else if ms = [] then 1 else (0::nat))"
proof -
  have fl: "flags rx' = flags rx" using exec_flags[of rx "getText d"] assms(2) by simp
  then have g: "global (skipEmpty rx' m) = global rx"
    by (simp add: skipEmpty_def global_def)
  show ?thesis
  proof (cases "global rx")
    case True
    then have "keeps rx" by (simp add: keeps_def)
    from exec_progress[OF assms(2) this]
    have p: "lastIndex rx \<le> index m" "index m \<le> lastIndex rx'"
      "lastIndex rx' \<le> length (getText d)"
      by simp_all
    have "lastIndex rx < lastIndex (skipEmpty rx' m)"
    proof (cases "lastIndex rx' = index m")
      case True
      with p show ?thesis by (simp add: skipEmpty_def)
    next
      case False
      with p show ?thesis by (simp add: skipEmpty_def)
    qed
    moreover from p have "lastIndex rx \<le> length (getText d)" by simp
    ultimately have "lastIndex rx < lastIndex (skipEmpty rx' m)"
      "lastIndex rx \<le> length (getText d)" by simp_all
    with True g show ?thesis by simp
  next
    case False
    with assms(1) g show ?thesis by simp
  qed
qed

function findMatches_loop ::
  "RegExp \<Rightarrow> TextDocument \<Rightarrow> Range list \<Rightarrow> Range list \<times> RegExp" where
  "findMatches_loop rx d matches =
     (if global rx \<or> matches = [] then
        (case exec rx (getText d) of
           (None, rx') \<Rightarrow> (matches, rx')
         | (Some m, rx') \<Rightarrow> findMatches_loop (skipEmpty rx' m) d (matches @ [matchRange d m]))
      else (matches, rx))"
  by pat_completeness auto
termination
proof (relation "measure (\<lambda>(rx, d, ms).
    if global rx then Suc (length (getText d)) - lastIndex rx else if ms = [] then 1 else 0)",
    goal_cases)
  case 1
  show ?case by simp
next
  case (2 rx d matches x1 x2 m)
  then show ?case using findMatches_decrease[of rx matches d m x2] by simp
qed

definition findMatches ::
  "Constructor \<Rightarrow> RegexMatch \<Rightarrow> TextDocument \<Rightarrow> bool \<Rightarrow> (Range list \<times> RegExp) option" where
  \<comment> \<open>the matches, and the \<^verbatim>\<open>regex\<close> object of \<^verbatim>\<open>regexMatch\<close> as the loop leaves it\<close>
  "findMatches ctor regexMatch d addGMEnabled =
     (case addGM ctor (regex regexMatch) addGMEnabled of
        None \<Rightarrow> None
      | Some (fresh, rx) \<Rightarrow>
          (let (matches, rx') = findMatches_loop rx d []
           in Some (matches, if fresh then regex regexMatch else rx')))"

definition dispose :: "RegexMatchDecorator \<Rightarrow> Decorations \<Rightarrow> Decorations" where
  "dispose this decos =
     setDecorations (editor this) regexHighlight []
       (setDecorations (editor this) matchHighlight [] decos)"

definition update ::
  "Constructor \<Rightarrow> RegexMatchDecorator \<Rightarrow> (TextEditor \<Rightarrow> Editor) \<Rightarrow> RegexMatch option \<Rightarrow> string option \<Rightarrow> bool \<Rightarrow>
   Decorations \<Rightarrow> (Decorations \<times> RegexMatch option) option" where
  \<comment> \<open>the second argument is the host's table of editors, for \<^verbatim>\<open>this.editor.document\<close>;
      \<^verbatim>\<open>editorURI\<close> may still be undefined, and \<^verbatim>\<open>editorURI.fsPath\<close> throws then; the
      result holds the decorations and \<^verbatim>\<open>activeRegex\<close> with its \<^verbatim>\<open>regex\<close> as
      \<^verbatim>\<open>findMatches\<close> left it\<close>
  "update ctor this editors activeRegex editorURI addGMEnabled decos =
     (case activeRegex of
        Some a \<Rightarrow>
          (case editorURI of
             None \<Rightarrow> None
           | Some uri \<Rightarrow>
               (let d = document (editors (editor this));
                    isEditor = (fsPath d = uri)
                in if isEditor \<or> fsPath (rmDocument a) = fsPath d then
                     (case findMatches ctor a d addGMEnabled of
                        None \<Rightarrow> None
                      | Some (matches, rx') \<Rightarrow>
                          Some (setDecorations (editor this)
                                  (if isEditor then matchHighlight else regexHighlight)
                                  matches decos,
                                Some (a\<lparr>regex := rx'\<rparr>)))
                   else Some (decos, activeRegex)))
      | None \<Rightarrow>
          Some (setDecorations (editor this) regexHighlight []
                  (setDecorations (editor this) matchHighlight [] decos), None))"

section \<open>\<^verbatim>\<open>extension.ts\<close>\<close>

definition languages :: "string list" where
  "languages = [''javascript'', ''javascriptreact'', ''typescript'', ''typescriptreact'',
                ''vue'', ''php'', ''haxe'']"

definition isLanguageSupported :: "TextDocument \<Rightarrow> bool" where
  "isLanguageSupported d = (languageId d \<in> set languages)"

definition createRegex :: "Constructor \<Rightarrow> string \<Rightarrow> string \<Rightarrow> RegExp option" where
  \<comment> \<open>\<^verbatim>\<open>try { return new RegExp(pattern, flags) } catch (e) { }\<close>: \<^verbatim>\<open>None\<close> is \<^verbatim>\<open>undefined\<close>\<close>
  "createRegex ctor pattern fl = ctor pattern fl"

definition createRegexMatch ::
  "Constructor \<Rightarrow> TextDocument \<Rightarrow> nat \<Rightarrow> RegExpExecArray \<Rightarrow> RegexMatch option" where
  "createRegexMatch ctor d ln m =
     (case createRegex ctor (str m 3) (str m 4) of
        Some rx \<Rightarrow>
          Some \<lparr>rmDocument = d, regex = rx,
                rmRange = Range (Position ln (index m + length (str m 1)))
                                (Position ln (index m + length (str m 1) + length (str m 2)))\<rparr>
      | None \<Rightarrow> None)"

text \<open>
  The two loops over the matches of a line. Both set \<^verbatim>\<open>lastIndex\<close> of the
  module-level pattern object to 0 first, so the object's state between calls does
  not matter and the loops carry \<^verbatim>\<open>lastIndex\<close> themselves.
\<close>

function caretLoop :: "string \<Rightarrow> string \<Rightarrow> nat \<Rightarrow> nat \<Rightarrow> RegExpExecArray option" where
  \<comment> \<open>the \<^verbatim>\<open>while\<close> of \<^verbatim>\<open>findRegexAtCaret\<close>: language, text, caret column, \<^verbatim>\<open>lastIndex\<close>\<close>
  "caretLoop lang txt ch li =
     (case exec (scanner lang li) txt of
        (None, rx') \<Rightarrow> None
      | (Some m, rx') \<Rightarrow>
          if index m + length (str m 1) + length (str m 2) < ch
          then caretLoop lang txt ch (lastIndex rx')
          else Some m)"
  by pat_completeness auto
termination
proof (relation "measure (\<lambda>(lang, txt, ch, li). length txt - li)", goal_cases)
  case 1
  show ?case by simp
next
  case (2 lang t ch li x1 x2 m)
  then have "exec (scanner lang li) t = (Some m, x2)" by simp
  from exec_scanner_progress[OF this] have "li < lastIndex x2" "lastIndex x2 \<le> length t"
    by blast+
  then show ?case by simp
qed

definition findRegexAtCaret :: "Constructor \<Rightarrow> Editor \<Rightarrow> RegexMatch option option" where
  \<comment> \<open>outer \<^verbatim>\<open>None\<close>: \<^verbatim>\<open>lineAt\<close> threw; inner \<^verbatim>\<open>None\<close>: \<^verbatim>\<open>undefined\<close>\<close>
  "findRegexAtCaret ctor ed =
     (case lineAt (document ed) (line (anchor ed)) of
        None \<Rightarrow> None
      | Some l \<Rightarrow>
          Some (let txt = take 1000 l in
                case caretLoop (languageId (document ed)) txt (character (anchor ed)) 0 of
                  Some m \<Rightarrow>
                    if index m + length (str m 1) \<le> character (anchor ed)
                    then createRegexMatch ctor (document ed) (line (anchor ed)) m
                    else None
                | None \<Rightarrow> None))"

function scanLoop ::
  "Constructor \<Rightarrow> TextDocument \<Rightarrow> nat \<Rightarrow> string \<Rightarrow> nat \<Rightarrow> RegexMatch list \<Rightarrow> RegexMatch list" where
  \<comment> \<open>the inner \<^verbatim>\<open>while\<close> of \<^verbatim>\<open>findRegexes\<close>\<close>
  "scanLoop ctor d i txt li matches =
     (case exec (scanner (languageId d) li) txt of
        (None, rx') \<Rightarrow> matches
      | (Some m, rx') \<Rightarrow>
          scanLoop ctor d i txt (lastIndex rx')
            (case createRegexMatch ctor d i m of Some r \<Rightarrow> matches @ [r] | None \<Rightarrow> matches))"
  by pat_completeness auto
termination
proof (relation "measure (\<lambda>(ctor, d, i, txt, li, matches). length txt - li)", goal_cases)
  case 1
  show ?case by simp
next
  case (2 ctor d i t li matches x1 x2 m)
  then have "exec (scanner (languageId d) li) t = (Some m, x2)" by simp
  from exec_scanner_progress[OF this] have "li < lastIndex x2" "lastIndex x2 \<le> length t"
    by blast+
  then show ?case by simp
qed

definition findRegexes :: "Constructor \<Rightarrow> TextDocument \<Rightarrow> RegexMatch list" where
  \<comment> \<open>\<^verbatim>\<open>lineAt(i)\<close> for \<^verbatim>\<open>i\<close> below \<^verbatim>\<open>lineCount\<close> is the \<^verbatim>\<open>i\<close>-th line\<close>
  "findRegexes ctor d =
     fold (\<lambda>(i, l) matches. scanLoop ctor d i (take 1000 l) 0 matches)
       (enumerate 0 (splitLines (getText d))) []"

subsection \<open>The state of the extension and of the window\<close>

record State =
  editors :: "TextEditor \<Rightarrow> Editor"  \<comment> \<open>host: the properties of each editor object\<close>
  visibleTextEditors :: "TextEditor list"  \<comment> \<open>host: \<^verbatim>\<open>window.visibleTextEditors\<close>\<close>
  activeTextEditor :: "TextEditor option"  \<comment> \<open>host: \<^verbatim>\<open>window.activeTextEditor\<close>\<close>
  decorations :: Decorations  \<comment> \<open>host: what each editor renders\<close>
  decorators :: "(TextEditor \<times> RegexMatchDecorator) list"  \<comment> \<open>the \<^verbatim>\<open>Map\<close>, in insertion order\<close>
  addGMEnabled :: bool
  editorURI :: "string option"  \<comment> \<open>the path of \<^verbatim>\<open>editorURI\<close>; \<^verbatim>\<open>None\<close> while undefined\<close>
  outputChannel :: "string list"  \<comment> \<open>host: the lines written to the output channel\<close>
  activeRegex :: "RegexMatch option"

definition mapDelete :: "'k \<Rightarrow> ('k \<times> 'v) list \<Rightarrow> ('k \<times> 'v) list" where
  "mapDelete k m = filter (\<lambda>(k', v). k' \<noteq> k) m"

fun mapSet :: "'k \<Rightarrow> 'v \<Rightarrow> ('k \<times> 'v) list \<Rightarrow> ('k \<times> 'v) list" where
  "mapSet k v [] = [(k, v)]"
| "mapSet k v ((k', v') # m) = (if k' = k then (k, v) # m else (k', v') # mapSet k v m)"

fun forEach :: "('a \<Rightarrow> 's \<Rightarrow> 's option) \<Rightarrow> 'a list \<Rightarrow> 's \<Rightarrow> 's option" where
  \<comment> \<open>a loop whose body may throw\<close>
  "forEach f [] s = Some s"
| "forEach f (x # xs) s = (case f x s of None \<Rightarrow> None | Some s' \<Rightarrow> forEach f xs s')"

definition getVisibleTextEditors :: "State \<Rightarrow> TextEditor list" where
  "getVisibleTextEditors st = filter (\<lambda>e. viewColumn (editors st e) \<noteq> None) (visibleTextEditors st)"

definition isEditorEnabled :: "State \<Rightarrow> bool" where
  \<comment> \<open>\<^verbatim>\<open>editorURI?.fsPath\<close> is \<^verbatim>\<open>undefined\<close>, equal to no path, while \<^verbatim>\<open>editorURI\<close> is\<close>
  "isEditorEnabled st =
     list_ex (\<lambda>e. Some (fsPath (document (editors st e))) = editorURI st)
       (getVisibleTextEditors st)"

definition chooseActive :: "Constructor \<Rightarrow> RegexMatch option \<Rightarrow> State \<Rightarrow> State option" where
  \<comment> \<open>lines 149 to 156 of \<^verbatim>\<open>updateDecorators\<close>\<close>
  "chooseActive ctor match st =
     (case match of
        Some m \<Rightarrow> Some (st\<lparr>activeRegex := Some m\<rparr>)
      | None \<Rightarrow>
          (case activeTextEditor st of
             Some activeEditor \<Rightarrow>
               if isLanguageSupported (document (editors st activeEditor))
               then map_option (\<lambda>r. st\<lparr>activeRegex := r\<rparr>)
                      (findRegexAtCaret ctor (editors st activeEditor))
               else Some st
           | None \<Rightarrow> Some st))"

definition visitEditor ::
  "Constructor \<Rightarrow> TextEditor \<Rightarrow> State \<times> (TextEditor \<times> RegexMatchDecorator) list \<Rightarrow>
   (State \<times> (TextEditor \<times> RegexMatchDecorator) list) option" where
  \<comment> \<open>the body of the \<^verbatim>\<open>forEach\<close> over the visible editors, on the state and \<^verbatim>\<open>remove\<close>;
      \<^verbatim>\<open>editorURI.fsPath\<close> throws while \<^verbatim>\<open>editorURI\<close> is undefined\<close>
  "visitEditor ctor ed sr =
     (let (st, remove) = sr;
          remove' = mapDelete ed remove;
          d = document (editors st ed)
      in case (if isLanguageSupported d then Some True
               else map_option (\<lambda>u. fsPath d = u) (editorURI st)) of
           None \<Rightarrow> None
         | Some False \<Rightarrow> Some (st, remove')
         | Some True \<Rightarrow>
             (let (decorator, st1) =
                    (case map_of (decorators st) ed of
                       None \<Rightarrow> (RegexMatchDecorator ed,
                                 st\<lparr>decorators := mapSet ed (RegexMatchDecorator ed) (decorators st)\<rparr>)
                     | Some dec \<Rightarrow> (dec, st))
              in case update ctor decorator (editors st1) (activeRegex st1) (editorURI st1)
                        (addGMEnabled st1) (decorations st1) of
                   None \<Rightarrow> None
                 | Some (decos, a) \<Rightarrow>
                     Some (st1\<lparr>decorations := decos, activeRegex := a\<rparr>, remove')))"

definition retire :: "(TextEditor \<times> RegexMatchDecorator) list \<Rightarrow> State \<Rightarrow> State" where
  \<comment> \<open>lines 171 to 174: dispose what is left in \<^verbatim>\<open>remove\<close> and delete its keys\<close>
  "retire remove st =
     st\<lparr>decorations := fold (\<lambda>(k, dec). dispose dec) remove (decorations st),
        decorators := fold (\<lambda>(k, dec). mapDelete k) remove (decorators st)\<rparr>"

definition updateDecorators :: "Constructor \<Rightarrow> RegexMatch option \<Rightarrow> State \<Rightarrow> State option" where
  \<comment> \<open>\<^verbatim>\<open>None\<close>: an exception left the function\<close>
  "updateDecorators ctor match st =
     (if \<not> isEditorEnabled st then Some st
      else
        case chooseActive ctor match st of
          None \<Rightarrow> None
        | Some st1 \<Rightarrow>
            (case forEach (visitEditor ctor) (getVisibleTextEditors st1) (st1, decorators st1) of
               None \<Rightarrow> None
             | Some (st2, remove) \<Rightarrow> Some (retire remove st2)))"

definition openLoremIpsum :: "string \<Rightarrow> State \<Rightarrow> State" where
  \<comment> \<open>lines 126 to 133, the only place that writes to the output channel; the argument
      is the path the host makes up; opening and showing the document is left to the
      host, which runs \<^verbatim>\<open>updateDecorators\<close> afterwards\<close>
  "openLoremIpsum path st =
     (case editorURI st of
        None \<Rightarrow> st\<lparr>editorURI := Some path, outputChannel := outputChannel st @ [path]\<rparr>
      | Some uri \<Rightarrow> st)"

definition onDidCloseTextDocument :: "TextDocument \<Rightarrow> State \<Rightarrow> State" where
  \<comment> \<open>the handler of lines 55 to 62: \<^verbatim>\<open>decorators.delete(editor)\<close>, then
      \<^verbatim>\<open>decorators.get(editor)?.dispose()\<close>\<close>
  "onDidCloseTextDocument e st =
     fold (\<lambda>(ed, dec) st.
             if fsPath (document (editors st ed)) = fsPath e then
               (let st' = st\<lparr>decorators := mapDelete ed (decorators st)\<rparr>
                in case map_of (decorators st') ed of
                     Some dec' \<Rightarrow> st'\<lparr>decorations := dispose dec' (decorations st')\<rparr>
                   | None \<Rightarrow> st')
             else st)
       (decorators st) st"

section \<open>The candidates of a line\<close>

text \<open>
  The literal scanner's result for a line is the sequence of matches that repeated
  calls of \<^verbatim>\<open>exec\<close> return, starting with \<^verbatim>\<open>lastIndex\<close> 0. Both loops of the
  extension walk through it. The code computes the span of a candidate as
  \<^verbatim>\<open>match.index + match[1].length\<close> and that plus \<^verbatim>\<open>match[2].length\<close>.
\<close>

function scanAll :: "string \<Rightarrow> string \<Rightarrow> nat \<Rightarrow> RegExpExecArray list" where
  "scanAll lang txt li =
     (case exec (scanner lang li) txt of
        (None, rx') \<Rightarrow> []
      | (Some m, rx') \<Rightarrow> m # scanAll lang txt (lastIndex rx'))"
  by pat_completeness auto
termination
proof (relation "measure (\<lambda>(lang, txt, li). length txt - li)", goal_cases)
  case 1
  show ?case by simp
next
  case (2 lang t li x1 x2 m)
  then have "exec (scanner lang li) t = (Some m, x2)" by simp
  from exec_scanner_progress[OF this] have "li < lastIndex x2" "lastIndex x2 \<le> length t"
    by blast+
  then show ?case by simp
qed

declare scanAll.simps [simp del]

declare caretLoop.simps [simp del]

declare scanLoop.simps [simp del]

declare findMatches_loop.simps [simp del]

definition spanStart :: "RegExpExecArray \<Rightarrow> nat" where
  "spanStart m = index m + length (str m 1)"

definition spanEnd :: "RegExpExecArray \<Rightarrow> nat" where
  "spanEnd m = index m + length (str m 1) + length (str m 2)"

lemma scanLoop_scanAll:
  "scanLoop ctor d i t li acc
     = acc @ List.map_filter (createRegexMatch ctor d i) (scanAll (languageId d) t li)"
proof (induction ctor d i t li acc rule: scanLoop.induct)
  case (1 ctor d i t li matches)
  show ?case
  proof (cases "exec (scanner (languageId d) li) t")
    case (Pair r rx')
    show ?thesis
    proof (cases r)
      case None
      with Pair show ?thesis
        by (simp add: scanLoop.simps[of ctor d i t li] scanAll.simps[of _ t li] List.map_filter_simps)
    next
      case (Some m)
      with Pair 1[of r rx' m] show ?thesis
        by (simp add: scanLoop.simps[of ctor d i t li] scanAll.simps[of _ t li]
            List.map_filter_simps split: option.splits)
    qed
  qed
qed

lemma caretLoop_scanAll:
  "caretLoop lang t ch li = find (\<lambda>m. \<not> spanEnd m < ch) (scanAll lang t li)"
proof (induction lang t ch li rule: caretLoop.induct)
  case (1 lang t ch li)
  show ?case
  proof (cases "exec (scanner lang li) t")
    case (Pair r rx')
    show ?thesis
    proof (cases r)
      case None
      with Pair show ?thesis
        by (simp add: caretLoop.simps[of lang t ch li] scanAll.simps[of _ t li])
    next
      case (Some m)
      with Pair 1[of r rx' m] show ?thesis
        by (simp add: caretLoop.simps[of lang t ch li] scanAll.simps[of _ t li] spanEnd_def)
    qed
  qed
qed
lemma substring_length: "b \<le> length s \<Longrightarrow> length (substring s a b) = b - a"
  by (simp add: substring_def)

lemma substring_split:
  assumes "a \<le> b" "b \<le> c"
  shows "substring s a c = substring s a b @ substring s b c"
proof -
  have "c - a = (b - a) + (c - b)" using assms by simp
  then have "take (c - a) (drop a s) = take (b - a) (drop a s) @ take (c - b) (drop (b - a) (drop a s))"
    by (simp only: take_add)
  moreover have "drop (b - a) (drop a s) = drop b s" using assms by simp
  ultimately show ?thesis by (simp add: substring_def)
qed

lemma substring_single: "a < length s \<Longrightarrow> substring s a (Suc a) = [s ! a]"
  by (simp add: substring_def take_Suc_conv_app_nth[of 0] hd_drop_conv_nth take_Suc)

lemma run_scanner_extras:
  assumes "run (scanner lang li) s i = Some y" "shape lang s i y p b c"
  shows "(lang = ''haxe'' \<longrightarrow> s ! p = CHR ''~'') \<and>
         (quoteLen lang = 1 \<longrightarrow>
            s ! p \<in> {CHR 0x27, CHR ''|'', CHR 0x22} \<and> s ! c \<in> {CHR 0x27, CHR ''|'', CHR 0x22})"
proof -
  from assms(1) have sem: "sem (mode_of ''g'') s (getRegexRegex lang) (i, Map.empty) y"
    unfolding run_def scanner_def by (auto dest: rmatch_sound)
  from assms(2) have y: "snd y 1 = Some (i, p)" "snd y 2 = Some (p + quoteLen lang, c)"
    by (simp_all add: shape_def Let_def)
  show ?thesis
  proof (cases "lang = ''haxe''")
    case True
    with sem sem_haxeRegexRegex[of s i y] obtain p' b' c' where
      "shape ''haxe'' s i y p' b' c'" "s ! p' = CHR ''~''"
      by (auto simp: getRegexRegex_def)
    with y True show ?thesis by (simp add: shape_def Let_def quoteLen_def)
  next
    case False
    show ?thesis
    proof (cases "lang = ''php''")
      case True
      with sem sem_phpRegexRegex[of s i y] obtain p' b' c' where
        "shape ''php'' s i y p' b' c'"
        "s ! p' \<in> {CHR 0x27, CHR ''|'', CHR 0x22}" "s ! c' \<in> {CHR 0x27, CHR ''|'', CHR 0x22}"
        by (auto simp: getRegexRegex_def)
      with y True show ?thesis by (simp add: shape_def Let_def quoteLen_def)
    next
      case nphp: False
      with False show ?thesis by (simp add: quoteLen_def)
    qed
  qed
qed

lemma exec_scanner_shape:
  assumes "exec (scanner lang li) s = (Some m, rx')"
  shows "\<exists>i y p b c. m = exec_array s i y \<and> li \<le> i \<and> lastIndex rx' = fst y \<and>
           run (scanner lang li) s i = Some y \<and> shape lang s i y p b c"
proof -
  from exec_Some[OF assms] obtain i y where
    r: "run (scanner lang li) s i = Some y" and m: "m = exec_array s i y" and
    c: "if keeps (scanner lang li)
        then lastIndex (scanner lang li) \<le> i \<and> rx' = (scanner lang li)\<lparr>lastIndex := fst y\<rparr>
        else rx' = scanner lang li"
    by blast
  from c have "lastIndex (scanner lang li) \<le> i \<and>
      rx' = (scanner lang li)\<lparr>lastIndex := fst y\<rparr>"
    by simp
  then have *: "li \<le> i" "lastIndex rx' = fst y"
    by (simp_all add: scanner_def)
  from run_scanner_shape[OF r] obtain p b c where "shape lang s i y p b c" by blast
  with r m * show ?thesis by blast
qed

text \<open>The five groups of a scanner match and the columns the code computes from them.\<close>

lemma scanner_match_groups:
  assumes "m = exec_array s i y" "shape lang s i y p b c"
  shows "index m = i"
    and "str m 1 = substring s i p"
    and "str m 2 = substring s (p + quoteLen lang) c"
    and "str m 3 = substring s (Suc (p + quoteLen lang + sigilLen lang)) b"
    and "str m 4 = substring s (Suc b) c"
    and "group m 1 \<noteq> None \<and> group m 2 \<noteq> None \<and> group m 3 \<noteq> None \<and> group m 4 \<noteq> None
         \<and> group m 5 \<noteq> None"
    and "spanStart m = p"
    and "spanEnd m = c - quoteLen lang"
proof -
  from assms(2) have y: "snd y 1 = Some (i, p)" "snd y 2 = Some (p + quoteLen lang, c)"
    "snd y 3 = Some (Suc (p + quoteLen lang + sigilLen lang), b)"
    "snd y 4 = Some (Suc b, c)" "\<exists>e. snd y 5 = Some (e, fst y)"
    and le: "i \<le> p" "Suc (p + quoteLen lang + sigilLen lang) \<le> b" "Suc b \<le> c"
      "c + quoteLen lang \<le> fst y" "fst y \<le> length s"
    by (simp_all add: shape_def Let_def)
  show "index m = i" by (simp add: assms(1) exec_array_def)
  show g1: "str m 1 = substring s i p" using y by (simp add: assms(1) exec_array_def str_def)
  show g2: "str m 2 = substring s (p + quoteLen lang) c"
    using y by (simp add: assms(1) exec_array_def str_def)
  show "str m 3 = substring s (Suc (p + quoteLen lang + sigilLen lang)) b"
    using y by (simp add: assms(1) exec_array_def str_def)
  show "str m 4 = substring s (Suc b) c" using y by (simp add: assms(1) exec_array_def str_def)
  show "group m 1 \<noteq> None \<and> group m 2 \<noteq> None \<and> group m 3 \<noteq> None \<and> group m 4 \<noteq> None
         \<and> group m 5 \<noteq> None"
    using y by (auto simp: assms(1) exec_array_def)
  have l1: "length (str m 1) = p - i" unfolding g1 using le by (intro substring_length) simp
  have l2: "length (str m 2) = c - (p + quoteLen lang)"
    unfolding g2 using le by (intro substring_length) simp
  show "spanStart m = p" using l1 le by (simp add: spanStart_def assms(1) exec_array_def)
  show "spanEnd m = c - quoteLen lang"
    using l1 l2 le by (simp add: spanEnd_def assms(1) exec_array_def)
qed

lemma exec_scanner_span:
  assumes "exec (scanner lang li) s = (Some m, rx')"
  shows "li \<le> spanStart m \<and> spanStart m \<le> spanEnd m \<and> spanEnd m \<le> lastIndex rx'"
proof -
  from exec_scanner_shape[OF assms] obtain i y p b c where
    *: "m = exec_array s i y" "li \<le> i" "lastIndex rx' = fst y" "shape lang s i y p b c"
    by blast
  from *(4) have le: "i \<le> p" "Suc (p + quoteLen lang + sigilLen lang) \<le> b"
    "Suc b \<le> c" "c + quoteLen lang \<le> fst y"
    by (simp_all add: shape_def Let_def)
  have q: "quoteLen lang \<le> 1" by (simp add: quoteLen_def)
  from scanner_match_groups(7,8)[OF *(1,4)] le q *(2,3) show ?thesis by linarith
qed
definition caretTest :: "nat \<Rightarrow> RegExpExecArray \<Rightarrow> bool" where
  \<comment> \<open>the two comparisons of \<^verbatim>\<open>findRegexAtCaret\<close>, on the columns the code computes\<close>
  "caretTest ch m = (spanStart m \<le> ch \<and> ch \<le> spanEnd m)"

lemma scanAll_after:
  "m \<in> set (scanAll lang t li) \<Longrightarrow> li \<le> spanStart m"
proof (induction lang t li rule: scanAll.induct)
  case (1 lang t li)
  show ?case
  proof (cases "exec (scanner lang li) t")
    case (Pair r rx')
    show ?thesis
    proof (cases r)
      case None
      with Pair "1.prems" show ?thesis by (simp add: scanAll.simps[of lang t li])
    next
      case (Some m0)
      with Pair have e: "exec (scanner lang li) t = (Some m0, rx')" by simp
      note sp = exec_scanner_span[OF e]
      from "1.prems" e have "m = m0 \<or> m \<in> set (scanAll lang t (lastIndex rx'))"
        by (simp add: scanAll.simps[of lang t li])
      then show ?thesis
      proof
        assume "m = m0"
        with sp show ?thesis by simp
      next
        assume "m \<in> set (scanAll lang t (lastIndex rx'))"
        from "1.IH"[OF e[symmetric] refl this] sp show ?thesis by simp
      qed
    qed
  qed
qed

lemma scanAll_sorted:
  "sorted_wrt (\<lambda>m m'. spanEnd m \<le> spanStart m') (scanAll lang t li)"
proof (induction lang t li rule: scanAll.induct)
  case (1 lang t li)
  show ?case
  proof (cases "exec (scanner lang li) t")
    case (Pair r rx')
    show ?thesis
    proof (cases r)
      case None
      with Pair show ?thesis by (simp add: scanAll.simps[of lang t li])
    next
      case (Some m0)
      with Pair have e: "exec (scanner lang li) t = (Some m0, rx')" by simp
      note sp = exec_scanner_span[OF e]
      have "spanEnd m0 \<le> spanStart m'" if "m' \<in> set (scanAll lang t (lastIndex rx'))" for m'
        using scanAll_after[OF that] sp by simp
      with 1[OF e[symmetric] refl] e show ?thesis
        by (simp add: scanAll.simps[of lang t li])
    qed
  qed
qed

lemma find_caretTest:
  "(case find (\<lambda>m. \<not> spanEnd m < ch) (scanAll lang t li) of
      Some m \<Rightarrow> if spanStart m \<le> ch then Some m else None
    | None \<Rightarrow> None)
   = find (caretTest ch) (scanAll lang t li)"
proof (induction lang t li rule: scanAll.induct)
  case (1 lang t li)
  show ?case
  proof (cases "exec (scanner lang li) t")
    case (Pair r rx')
    show ?thesis
    proof (cases r)
      case None
      with Pair show ?thesis by (simp add: scanAll.simps[of lang t li])
    next
      case (Some m0)
      with Pair have e: "exec (scanner lang li) t = (Some m0, rx')" by simp
      note sp = exec_scanner_span[OF e]
      have unfold: "scanAll lang t li = m0 # scanAll lang t (lastIndex rx')"
        using e by (simp add: scanAll.simps[of lang t li])
      show ?thesis
      proof (cases "spanEnd m0 < ch")
        case True
        then have "\<not> caretTest ch m0" by (simp add: caretTest_def)
        with True 1[OF e[symmetric] refl] show ?thesis by (simp add: unfold)
      next
        case False
        show ?thesis
        proof (cases "spanStart m0 \<le> ch")
          case True
          with False have "caretTest ch m0" by (simp add: caretTest_def)
          with True False show ?thesis by (simp add: unfold)
        next
          case late: False
          have "\<not> caretTest ch m" if "m \<in> set (scanAll lang t (lastIndex rx'))" for m
            using scanAll_after[OF that] sp late by (simp add: caretTest_def)
          then have "find (caretTest ch) (scanAll lang t (lastIndex rx')) = None"
            by (simp add: find_None_iff)
          moreover from late have "\<not> caretTest ch m0" by (simp add: caretTest_def)
          ultimately show ?thesis using False late by (simp add: unfold)
        qed
      qed
    qed
  qed
qed

definition specDoc :: TextDocument where
  "specDoc = \<lparr>fsPath = ''/r.js'', languageId = ''javascript'', getText = ''const r = /ab*/g;''\<rparr>"

lemma findRegexAtCaret_find:
  "findRegexAtCaret ctor ed =
     (case lineAt (document ed) (line (anchor ed)) of
        None \<Rightarrow> None
      | Some l \<Rightarrow>
          Some (case find (caretTest (character (anchor ed)))
                       (scanAll (languageId (document ed)) (take 1000 l) 0) of
                  Some m \<Rightarrow> createRegexMatch ctor (document ed) (line (anchor ed)) m
                | None \<Rightarrow> None))"
proof (cases "lineAt (document ed) (line (anchor ed))")
  case None
  then show ?thesis by (simp add: findRegexAtCaret_def)
next
  case (Some l)
  have "(case caretLoop (languageId (document ed)) (take 1000 l) (character (anchor ed)) 0 of
           Some m \<Rightarrow> if index m + length (str m 1) \<le> character (anchor ed)
                     then createRegexMatch ctor (document ed) (line (anchor ed)) m else None
         | None \<Rightarrow> None)
      = (case (case find (\<lambda>m. \<not> spanEnd m < character (anchor ed))
                      (scanAll (languageId (document ed)) (take 1000 l) 0) of
                 Some m \<Rightarrow> if spanStart m \<le> character (anchor ed) then Some m else None
               | None \<Rightarrow> None) of
           Some m \<Rightarrow> createRegexMatch ctor (document ed) (line (anchor ed)) m
         | None \<Rightarrow> None)"
    by (simp add: caretLoop_scanAll spanStart_def split: option.splits)
  with Some show ?thesis by (simp add: findRegexAtCaret_def find_caretTest)
qed

section \<open>The text of a candidate\<close>

lemma scanAll_exec:
  "m \<in> set (scanAll lang t li) \<Longrightarrow> \<exists>li' rx'. exec (scanner lang li') t = (Some m, rx')"
proof (induction lang t li rule: scanAll.induct)
  case (1 lang t li)
  show ?case
  proof (cases "exec (scanner lang li) t")
    case (Pair r rx')
    show ?thesis
    proof (cases r)
      case None
      with Pair "1.prems" show ?thesis by (simp add: scanAll.simps[of lang t li])
    next
      case (Some m0)
      with Pair have e: "exec (scanner lang li) t = (Some m0, rx')" by simp
      from "1.prems" e have "m = m0 \<or> m \<in> set (scanAll lang t (lastIndex rx'))"
        by (simp add: scanAll.simps[of lang t li])
      then show ?thesis
      proof
        assume "m = m0"
        with e show ?thesis by blast
      next
        assume "m \<in> set (scanAll lang t (lastIndex rx'))"
        from "1.IH"[OF e[symmetric] refl this] show ?thesis .
      qed
    qed
  qed
qed

definition sigil :: "string \<Rightarrow> string" where
  "sigil lang = (if lang = ''haxe'' then ''~'' else [])"

lemma candidate_text:
  assumes "m \<in> set (scanAll lang s li)"
  shows "str m 2 = sigil lang @ slash # str m 3 @ slash # str m 4"
    and "substring s (spanStart m + quoteLen lang) (spanEnd m + quoteLen lang) = str m 2"
    and "spanEnd m + quoteLen lang \<le> length s"
    and "quoteLen lang = 1 \<Longrightarrow>
           s ! spanStart m \<in> {CHR 0x27, CHR ''|'', CHR 0x22} \<and>
           s ! Suc (spanEnd m) \<in> {CHR 0x27, CHR ''|'', CHR 0x22} \<and> Suc (spanEnd m) < length s"
proof -
  from scanAll_exec[OF assms] obtain li' rx' where e: "exec (scanner lang li') s = (Some m, rx')"
    by blast
  from exec_scanner_shape[OF e] obtain i y p b c where
    m: "m = exec_array s i y" and r: "run (scanner lang li') s i = Some y" and
    sh: "shape lang s i y p b c"
    by blast
  define q where "q = quoteLen lang"
  define a where "a = p + q + sigilLen lang"
  from sh have le: "i \<le> p" "Suc a \<le> b" "Suc b \<le> c" "c + q \<le> fst y" "fst y \<le> length s"
    and sl: "s ! a = slash" "s ! b = slash"
    by (simp_all add: shape_def Let_def q_def a_def)
  note g = scanner_match_groups[OF m sh, folded q_def a_def]
  have ex: "(lang = ''haxe'' \<longrightarrow> s ! p = CHR ''~'') \<and>
         (q = 1 \<longrightarrow> s ! p \<in> {CHR 0x27, CHR ''|'', CHR 0x22} \<and> s ! c \<in> {CHR 0x27, CHR ''|'', CHR 0x22})"
    using run_scanner_extras[OF r sh] by (simp add: q_def)
  have pre: "substring s (p + q) a = sigil lang"
  proof (cases "lang = ''haxe''")
    case True
    then have "a = Suc p" "q = 0" by (simp_all add: a_def q_def quoteLen_def sigilLen_def)
    moreover have "p < length s" using le \<open>a = Suc p\<close> by simp
    ultimately show ?thesis using ex True by (simp add: substring_single sigil_def)
  next
    case False
    then have "a = p + q" by (simp add: a_def sigilLen_def)
    with False show ?thesis by (simp add: substring_def sigil_def)
  qed
  have "substring s (p + q) c = substring s (p + q) a @ substring s a c"
    using le by (intro substring_split) (simp_all add: a_def)
  also have "substring s a c = substring s a (Suc a) @ substring s (Suc a) c"
    using le by (intro substring_split) simp_all
  also have "substring s (Suc a) c = substring s (Suc a) b @ substring s b c"
    using le by (intro substring_split) simp_all
  also have "substring s b c = substring s b (Suc b) @ substring s (Suc b) c"
    using le by (intro substring_split) simp_all
  finally have "substring s (p + q) c
      = sigil lang @ slash # substring s (Suc a) b @ slash # substring s (Suc b) c"
    using le sl pre by (simp add: substring_single)
  with g(2-5) show "str m 2 = sigil lang @ slash # str m 3 @ slash # str m 4"
    by (simp add: a_def)
  have qc: "q \<le> c" using le by (simp add: a_def)
  with g(3,7,8) show "substring s (spanStart m + quoteLen lang) (spanEnd m + quoteLen lang) = str m 2"
    by (simp add: q_def)
  from g(8) qc le show "spanEnd m + quoteLen lang \<le> length s" by (simp add: q_def)
  show "s ! spanStart m \<in> {CHR 0x27, CHR ''|'', CHR 0x22} \<and>
        s ! Suc (spanEnd m) \<in> {CHR 0x27, CHR ''|'', CHR 0x22} \<and> Suc (spanEnd m) < length s"
    if "quoteLen lang = 1"
  proof -
    from that have q1: "q = 1" by (simp add: q_def)
    with g(7,8) le have "spanStart m = p" "Suc (spanEnd m) = c" "c < length s"
      by (simp_all add: a_def q_def)
    with ex q1 show ?thesis by simp
  qed
qed
definition phpDoc :: "string \<Rightarrow> TextDocument" where
  "phpDoc t = \<lparr>fsPath = ''/q.php'', languageId = ''php'', getText = t\<rparr>"

definition squote :: char where
  "squote = CHR 0x27"

definition dquote :: char where
  "dquote = CHR 0x22"

definition patterns :: "TextDocument \<Rightarrow> (string \<times> string) list" where
  "patterns d = map (\<lambda>r. (source (regex r), flags (regex r))) (findRegexes RegExp_new d)"

lemma span_exact:
  assumes "m \<in> set (scanAll lang s li)" "lang \<noteq> ''php'' \<or> lang = ''haxe''"
  shows "substring s (spanStart m) (spanEnd m) = str m 2
       \<and> str m 2 = sigil lang @ slash # str m 3 @ slash # str m 4"
proof -
  from assms(2) have "quoteLen lang = 0" by (auto simp: quoteLen_def)
  with candidate_text(1,2)[OF assms(1)] show ?thesis by simp
qed

lemma span_shifted:
  assumes "m \<in> set (scanAll ''php'' s li)"
  shows "substring s (Suc (spanStart m)) (Suc (spanEnd m)) = str m 2
       \<and> str m 2 = slash # str m 3 @ slash # str m 4"
  using candidate_text(1,2)[OF assms] by (simp add: quoteLen_def sigil_def)

text \<open>
  Claim C3 says that the scanner yields pattern and flags exactly and that the
  reported span is exactly the delimiter-to-flags substring, without boundary and
  quote characters. Pattern and flags are exact in all three dialects, and the span
  is exact for the default and the Haxe pattern (\<open>span_exact\<close>). In the PHP pattern
  the quote between group 1 and group 2 lies outside every group, while the span is
  still computed from the lengths of groups 1 and 2 alone: it begins on the opening
  quote and ends one character early (\<open>span_shifted\<close>). For the PHP line
  \<^verbatim>\<open>'/ab/g'\<close> the literal is at columns 1 to 6 and the reported range is 0 to 5.
\<close>

theorem php_span_off_by_one:
  "map rmRange (findRegexes RegExp_new (phpDoc (squote # ''/ab/g'' @ [squote])))
     = [Range (Position 0 0) (Position 0 5)]
   \<and> patterns (phpDoc (squote # ''/ab/g'' @ [squote])) = [(''ab'', ''g'')]
   \<and> substring (squote # ''/ab/g'' @ [squote]) 0 5 = squote # ''/ab/''
   \<and> substring (squote # ''/ab/g'' @ [squote]) 1 6 = ''/ab/g''"
  by code_simp

subsection \<open>A quoted literal that the scanner finds\<close>

text \<open>
  The matcher is run forwards on a line that holds, from some column on, a quote, a
  delimiter-wrapped pattern and a quote. The body is taken from the grammar of the
  specification: escaped delimiters, bracketed classes, and other characters that
  are not the delimiter (\<open>bodyText\<close>); an opening bracket counts only as the
  start of a class, and a backslash before the delimiter only as its escape, as the
  pattern reads them. On such a body the greedy iterations never have to give a
  character back, so the first path the matcher tries is the one that succeeds.
\<close>

definition bodyItem :: re where
  \<comment> \<open>what the body of a literal repeats: \<open>body = Plus bodyItem\<close>\<close>
  "bodyItem = Alt (Seq (Chr (CHR 0x5C)) (Chr slash))
               (Alt (Seq (Chr CHR ''['') (Seq (Star (Cls True '']'')) (Chr CHR '']'')))
                    (Cls True [slash]))"

inductive bodyText :: "string \<Rightarrow> bool" where
  empty: "bodyText []"
| plain: "c \<notin> {slash, bslash, CHR ''[''} \<Longrightarrow> bodyText cs \<Longrightarrow> bodyText (c # cs)"
| backslash: "x \<noteq> slash \<Longrightarrow> bodyText (x # cs) \<Longrightarrow> bodyText (bslash # x # cs)"
| escaped: "bodyText cs \<Longrightarrow> bodyText (bslash # slash # cs)"
| bracketed: "CHR '']'' \<notin> set cls \<Longrightarrow> bodyText cs \<Longrightarrow> bodyText (CHR ''['' # cls @ CHR '']'' # cs)"

lemma repeat_greedy:
  assumes step: "\<And>k' j. p0 \<le> j \<Longrightarrow> j < e \<Longrightarrow> m k' (j, c) = k' (Suc j, c)"
    and stop: "\<And>k'. m k' (e, c) = None"
    and z: "k (e, c) = Some z"
  shows "p0 \<le> p \<Longrightarrow> p \<le> e \<Longrightarrow> e - p < n \<Longrightarrow> repeat n m k (p, c) = Some z"
proof (induction n arbitrary: p)
  case 0
  then show ?case by simp
next
  case (Suc n)
  show ?case
  proof (cases "p = e")
    case True
    with stop z show ?thesis by (simp add: orelse_def)
  next
    case False
    with Suc.prems have lt: "p < e" by simp
    with Suc.prems have "m (progress p (repeat n m k)) (p, c) = progress p (repeat n m k) (Suc p, c)"
      using step by simp
    also have "\<dots> = repeat n m k (Suc p, c)" by (simp add: progress_def)
    also have "\<dots> = Some z" using Suc.prems lt by (intro Suc.IH) simp_all
    finally show ?thesis by (simp add: orelse_def)
  qed
qed

lemma scan_from_first:
  "(\<And>j. i \<le> j \<Longrightarrow> j < i0 \<Longrightarrow> f j = None) \<Longrightarrow> f i0 = Some y \<Longrightarrow> i \<le> i0 \<Longrightarrow> i0 < i + n \<Longrightarrow>
   scan_from f i n = Some (i0, y)"
proof (induction n arbitrary: i)
  case 0
  then show ?case by simp
next
  case (Suc n)
  show ?case
  proof (cases "i = i0")
    case True
    with Suc.prems(2) show ?thesis by simp
  next
    case False
    with Suc.prems have "f i = None" "Suc i \<le> i0" "i0 < Suc i + n" by simp_all
    moreover from this Suc.prems have "scan_from f (Suc i) n = Some (i0, y)"
      by (intro Suc.IH) simp_all
    ultimately show ?thesis by simp
  qed
qed

lemma drop_nth_hd:
  "drop p s = x # xs \<Longrightarrow> p < length s \<and> s ! p = x \<and> drop (Suc p) s = xs"
  by (metis Cons_nth_drop_Suc drop_eq_Nil leI list.discI list.inject)

lemma drop_plus:
  "drop p s = xs @ ys \<Longrightarrow> drop (p + length xs) s = ys"
  by (metis add.commute append_eq_conv_conj drop_drop)

lemma body_stop:
  assumes "\<not> icase md" "s ! j = slash"
  shows "rmatch md s bodyItem k (j, c) = None"
  using assms
  by (auto simp: bodyItem_def chr_match_def cls_match_def advance_def orelse_def slash_def)

lemma item_step:
  assumes "bodyText b" "b \<noteq> []" "\<not> icase md" "drop p s = b @ slash # R"
  shows "\<exists>b'. bodyText b' \<and> length b' < length b
            \<and> drop (p + (length b - length b')) s = b' @ slash # R
            \<and> (\<forall>k' z. k' (p + (length b - length b'), c) = Some z
                   \<longrightarrow> rmatch md s bodyItem k' (p, c) = Some z)"
  using assms(1)
proof (cases rule: bodyText.cases)
  case empty
  with assms(2) show ?thesis by simp
next
  case (plain x cs)
  with assms(4) have d: "drop p s = x # (cs @ slash # R)" by simp
  note h = drop_nth_hd[OF d]
  have "rmatch md s bodyItem k' (p, c) = k' (Suc p, c)" for k'
    using assms(3) h plain(2)
    by (auto simp: bodyItem_def chr_match_def cls_match_def advance_def orelse_def bslash_def)
  with plain h show ?thesis by (intro exI[of _ cs]) simp
next
  case (backslash x cs)
  with assms(4) have d: "drop p s = bslash # (x # cs @ slash # R)" by simp
  note h = drop_nth_hd[OF d]
  from h have d2: "drop (Suc p) s = x # (cs @ slash # R)" by simp
  note h2 = drop_nth_hd[OF d2]
  have "rmatch md s bodyItem k' (p, c) = k' (Suc p, c)" for k'
    using assms(3) h h2 backslash(2)
    by (auto simp: bodyItem_def chr_match_def cls_match_def advance_def orelse_def bslash_def slash_def)
  with backslash h show ?thesis by (intro exI[of _ "x # cs"]) simp
next
  case (escaped cs)
  with assms(4) have d: "drop p s = bslash # (slash # cs @ slash # R)" by simp
  note h = drop_nth_hd[OF d]
  from h have d2: "drop (Suc p) s = slash # (cs @ slash # R)" by simp
  note h2 = drop_nth_hd[OF d2]
  have "rmatch md s bodyItem k' (p, c) = Some z" if "k' (Suc (Suc p), c) = Some z" for k' z
    using assms(3) h h2 that
    by (auto simp: bodyItem_def chr_match_def cls_match_def advance_def orelse_def bslash_def)
  with escaped h2 show ?thesis by (intro exI[of _ cs]) simp
next
  case (bracketed cls cs)
  with assms(4) have d: "drop p s = CHR ''['' # (cls @ CHR '']'' # cs @ slash # R)" by simp
  note h = drop_nth_hd[OF d]
  define e where "e = Suc p + length cls"
  from h have d1: "drop (Suc p) s = cls @ (CHR '']'' # cs @ slash # R)" by simp
  from drop_plus[OF d1] have d2: "drop e s = CHR '']'' # (cs @ slash # R)" by (simp add: e_def)
  note h2 = drop_nth_hd[OF d2]
  have cl: "s ! j \<noteq> CHR '']''" "j < length s" if "Suc p \<le> j" "j < e" for j
  proof -
    from that have k: "j - Suc p < length cls" "j = Suc p + (j - Suc p)" by (simp_all add: e_def)
    have "s ! (Suc p + (j - Suc p)) = drop (Suc p) s ! (j - Suc p)"
      using h2 that by (intro nth_drop[symmetric]) simp
    also have "\<dots> = cls ! (j - Suc p)" using k(1) by (simp add: d1 nth_append)
    finally have "s ! j = cls ! (j - Suc p)" using k(2) by simp
    with k(1) bracketed(2) show "s ! j \<noteq> CHR '']''" by (metis nth_mem)
    from that h2 show "j < length s" by simp
  qed
  have "rmatch md s bodyItem k' (p, c) = Some z" if z: "k' (Suc e, c) = Some z" for k' z
  proof -
    have step: "rmatch md s (Cls True '']'') k'' (j, c) = k'' (Suc j, c)"
      if "Suc p \<le> j" "j < e" for k'' j
      using cl[OF that] assms(3) by (simp add: cls_match_def chr_match_def advance_def)
    have stop: "rmatch md s (Cls True '']'') k'' (e, c) = None" for k''
      using h2 assms(3) by (simp add: cls_match_def chr_match_def)
    have k: "rmatch md s (Chr CHR '']'') k' (e, c) = Some z"
      using h2 assms(3) z by (simp add: chr_match_def advance_def)
    from h2 have fuel: "e - Suc p < Suc (length s - Suc p)" "Suc p \<le> e"
      unfolding e_def by linarith+
    have "repeat (Suc (length s - Suc p)) (rmatch md s (Cls True '']'')) (rmatch md s (Chr CHR '']'') k') (Suc p, c)
        = Some z"
      by (rule repeat_greedy[where ?p0.0 = "Suc p" and e = e and c = c
            and m = "rmatch md s (Cls True '']'')" and k = "rmatch md s (Chr CHR '']'') k'",
            OF step stop k le_refl fuel(2) fuel(1)])
    then show ?thesis using assms(3) h
      by (simp add: bodyItem_def chr_match_def advance_def orelse_def star_def)
  qed
  moreover have "p + (length b - length cs) = Suc e" using bracketed(1) by (simp add: e_def)
  ultimately show ?thesis using bracketed h2 by (intro exI[of _ cs]) simp
qed

lemma body_greedy:
  assumes "\<not> icase md"
  shows "bodyText b \<Longrightarrow> drop p s = b @ slash # R \<Longrightarrow> length b < n \<Longrightarrow>
         K (p + length b, c) = Some z \<Longrightarrow> repeat n (rmatch md s bodyItem) K (p, c) = Some z"
proof (induction n arbitrary: b p)
  case 0
  then show ?case by simp
next
  case (Suc n)
  show ?case
  proof (cases "b = []")
    case True
    with Suc.prems(2) have "s ! p = slash" using drop_nth_hd[of p s slash R] by simp
    from body_stop[OF assms this] Suc.prems(4) True show ?thesis by (simp add: orelse_def)
  next
    case False
    from item_step[OF Suc.prems(1) False assms Suc.prems(2), of c] obtain b' where
      b': "bodyText b'" "length b' < length b"
        "drop (p + (length b - length b')) s = b' @ slash # R"
        "\<And>k' z. k' (p + (length b - length b'), c) = Some z
              \<Longrightarrow> rmatch md s bodyItem k' (p, c) = Some z"
      by blast
    define p' where "p' = p + (length b - length b')"
    from b'(2) have ne: "p' \<noteq> p" and e: "p' + length b' = p + length b" by (simp_all add: p'_def)
    from b'(2) Suc.prems(3) have lt: "length b' < n" by linarith
    from e Suc.prems(4) have kz: "K (p' + length b', c) = Some z" by simp
    have "repeat n (rmatch md s bodyItem) K (p', c) = Some z"
      by (rule Suc.IH[OF b'(1) b'(3)[folded p'_def] lt kz])
    with ne have "progress p (repeat n (rmatch md s bodyItem) K) (p', c) = Some z"
      by (simp add: progress_def)
    from b'(4)[folded p'_def, of "progress p (repeat n (rmatch md s bodyItem) K)" z] this
    show ?thesis by (simp add: orelse_def)
  qed
qed

lemma body_match:
  assumes "\<not> icase md" "bodyText b" "b \<noteq> []" "drop p s = b @ slash # R"
    and "K (p + length b, c) = Some z"
  shows "rmatch md s body K (p, c) = Some z"
proof -
  from item_step[OF assms(2,3,1,4), of c] obtain b' where
    b': "bodyText b'" "length b' < length b"
      "drop (p + (length b - length b')) s = b' @ slash # R"
      "\<And>k' z. k' (p + (length b - length b'), c) = Some z
            \<Longrightarrow> rmatch md s bodyItem k' (p, c) = Some z"
    by blast
  define p' where "p' = p + (length b - length b')"
  from b'(2) have e: "p' + length b' = p + length b" by (simp add: p'_def)
  have "length (drop p' s) = length (b' @ slash # R)" using b'(3) by (simp add: p'_def)
  then have l: "length b' < Suc (length s - p')" by simp
  from e assms(5) have kz: "K (p' + length b', c) = Some z" by simp
  have "repeat (Suc (length s - p')) (rmatch md s bodyItem) K (p', c) = Some z"
    by (rule body_greedy[where K = K, OF assms(1) b'(1) b'(3)[folded p'_def] l kz])
  then have "star (length s) (rmatch md s bodyItem) K (p', c) = Some z"
    by (simp add: star_def)
  from b'(4)[folded p'_def, of "star (length s) (rmatch md s bodyItem) K" z] this
  show ?thesis by (simp add: body_def bodyItem_def)
qed


lemma php_tail:
  fixes s :: string and c :: "nat \<rightharpoonup> nat \<times> nat"
  assumes md: "\<not> icase md"
    and l: "F < length s"
    and q1: "s ! n0 \<in> {CHR 0x27, CHR 0x22}"
    and s1: "s ! Suc n0 = slash"
    and bd: "drop (Suc (Suc n0)) s = bdy @ slash # R"
    and bt: "bodyText bdy" and bn: "bdy \<noteq> []"
    and E: "E = Suc (Suc n0) + length bdy"
    and ef: "E < F"
    and fl: "\<And>j. E < j \<Longrightarrow> j < F \<Longrightarrow> s ! j \<in> set ''gimuy''"
    and q2: "s ! F \<in> {CHR 0x27, CHR 0x22}"
    and af: "Suc F = length s \<or> s ! Suc F \<in> set whiteSpace \<union> set punct"
  shows "\<exists>z. rmatch md s (Seq quote (Seq (Grp 2 (delimited ''gimuy''))
                              (Seq quote (Grp 5 (boundaryAfter []))))) Some (n0, c) = Some z
           \<and> fst z = (if Suc F = length s then Suc F else Suc (Suc F))
           \<and> snd z 1 = c 1 \<and> snd z 2 = Some (Suc n0, F)
           \<and> snd z 3 = Some (Suc (Suc n0), E) \<and> snd z 4 = Some (Suc E, F)"
proof -
  define e where "e = (if Suc F = length s then Suc F else Suc (Suc F))"
  define K3 where "K3 = rmatch md s (Seq quote (Grp 5 (boundaryAfter []))) Some"
  define K6 where "K6 = close_group 2 (Suc n0) K3"
  define K7 where "K7 = close_group 4 (Suc E) K6"
  define K4 where "K4 = rmatch md s (Seq (Chr slash) (Grp 4 (Star (Cls False ''gimuy'')))) K6"
  define K5 where "K5 = close_group 3 (Suc (Suc n0)) K4"
  from drop_plus[OF bd] E have "drop E s = slash # R" by simp
  from drop_nth_hd[OF this] have s2: "s ! E = slash" by simp
  have A: "K3 (F, c') = Some (e, c'(5 \<mapsto> (Suc F, e)))" for c'
  proof (cases "Suc F = length s")
    case True
    then show ?thesis using md l q2 unfolding K3_def quote_def boundaryAfter_def e_def
      by (auto simp: chr_match_def cls_match_def advance_def orelse_def close_group_def)
  next
    case False
    with l af have lt: "Suc F < length s" and b: "s ! Suc F \<in> set whiteSpace \<union> set punct"
      by auto
    show ?thesis
    proof (cases "s ! Suc F \<in> set whiteSpace")
      case True
      then show ?thesis using md l lt q2 False unfolding K3_def quote_def boundaryAfter_def e_def
        by (auto simp: chr_match_def cls_match_def advance_def orelse_def close_group_def)
    next
      case nw: False
      with b have "s ! Suc F \<in> set punct" by simp
      with nw show ?thesis using md l lt q2 False unfolding K3_def quote_def boundaryAfter_def e_def
        by (auto simp: chr_match_def cls_match_def advance_def orelse_def close_group_def)
    qed
  qed
  have C: "K7 (F, c') = Some (e, c'(4 \<mapsto> (Suc E, F), 2 \<mapsto> (Suc n0, F), 5 \<mapsto> (Suc F, e)))" for c'
    using A[of "c'(4 \<mapsto> (Suc E, F), 2 \<mapsto> (Suc n0, F))"]
    by (simp add: K7_def K6_def close_group_def)
  have D: "star (length s) (rmatch md s (Cls False ''gimuy'')) K7 (Suc E, c')
             = Some (e, c'(4 \<mapsto> (Suc E, F), 2 \<mapsto> (Suc n0, F), 5 \<mapsto> (Suc F, e)))" for c'
  proof -
    have step: "rmatch md s (Cls False ''gimuy'') k' (j, c') = k' (Suc j, c')"
      if "Suc E \<le> j" "j < F" for k' j
      using that fl[of j] md l by (simp add: cls_match_def chr_match_def advance_def)
    have stop: "rmatch md s (Cls False ''gimuy'') k' (F, c') = None" for k'
      using q2 md by (auto simp: cls_match_def chr_match_def)
    from ef l have fuel: "Suc E \<le> F" "F - Suc E < Suc (length s - Suc E)" by linarith+
    have "repeat (Suc (length s - Suc E)) (rmatch md s (Cls False ''gimuy'')) K7 (Suc E, c')
        = Some (e, c'(4 \<mapsto> (Suc E, F), 2 \<mapsto> (Suc n0, F), 5 \<mapsto> (Suc F, e)))"
      by (rule repeat_greedy[where ?p0.0 = "Suc E" and e = F and c = c'
            and m = "rmatch md s (Cls False ''gimuy'')" and k = K7,
            OF step stop C le_refl fuel])
    then show ?thesis by (simp add: star_def)
  qed
  have E': "K4 (E, c') = star (length s) (rmatch md s (Cls False ''gimuy'')) K7 (Suc E, c')" for c'
    using md s2 ef l by (simp add: K4_def K7_def chr_match_def advance_def)
  have "K5 (Suc (Suc n0) + length bdy, c)
      = Some (e, c(3 \<mapsto> (Suc (Suc n0), E), 4 \<mapsto> (Suc E, F), 2 \<mapsto> (Suc n0, F), 5 \<mapsto> (Suc F, e)))"
    using D[of "c(3 \<mapsto> (Suc (Suc n0), E))"] E'[of "c(3 \<mapsto> (Suc (Suc n0), E))"] E
    by (simp add: K5_def close_group_def)
  from body_match[where K = K5, OF md bt bn bd this]
  have F': "rmatch md s body K5 (Suc (Suc n0), c)
      = Some (e, c(3 \<mapsto> (Suc (Suc n0), E), 4 \<mapsto> (Suc E, F), 2 \<mapsto> (Suc n0, F), 5 \<mapsto> (Suc F, e)))" .
  from ef l E have l2: "Suc n0 < length s" by simp
  have "rmatch md s (Seq quote (Seq (Grp 2 (delimited ''gimuy''))
                              (Seq quote (Grp 5 (boundaryAfter []))))) Some (n0, c)
      = rmatch md s body K5 (Suc (Suc n0), c)"
    using md q1 s1 l2
    by (auto simp: quote_def delimited_def K3_def K4_def K5_def K6_def chr_match_def cls_match_def advance_def)
  with F' show ?thesis by (simp add: e_def)
qed

lemma boundary_not_quote:
  "x \<in> set whiteSpace \<union> set punct \<Longrightarrow> x \<notin> {CHR 0x27, CHR ''|'', CHR 0x22} \<and> x \<noteq> slash"
  by (auto simp: whiteSpace_def punct_def slash_def)

lemma php_run:
  fixes s :: string
  assumes l: "F < length s"
    and q1: "s ! n0 \<in> {CHR 0x27, CHR 0x22}"
    and s1: "s ! Suc n0 = slash"
    and bd: "drop (Suc (Suc n0)) s = bdy @ slash # R"
    and bt: "bodyText bdy" and bn: "bdy \<noteq> []"
    and E: "E = Suc (Suc n0) + length bdy"
    and ef: "E < F"
    and fl: "\<And>j. E < j \<Longrightarrow> j < F \<Longrightarrow> s ! j \<in> set ''gimuy''"
    and q2: "s ! F \<in> {CHR 0x27, CHR 0x22}"
    and af: "Suc F = length s \<or> s ! Suc F \<in> set whiteSpace \<union> set punct"
    and pre: "(n0 = 0 \<and> i0 = 0) \<or> (n0 = Suc i0 \<and> s ! i0 \<in> set whiteSpace \<union> set punct)"
  shows "\<exists>y. run (scanner ''php'' li) s i0 = Some y
           \<and> fst y = (if Suc F = length s then Suc F else Suc (Suc F))
           \<and> snd y 1 = Some (i0, n0) \<and> snd y 2 = Some (Suc n0, F)
           \<and> snd y 3 = Some (Suc (Suc n0), E) \<and> snd y 4 = Some (Suc E, F)"
proof -
  let ?md = "mode_of ''g''"
  define KT where "KT = rmatch ?md s (Seq quote (Seq (Grp 2 (delimited ''gimuy''))
                              (Seq quote (Grp 5 (boundaryAfter []))))) Some"
  have md: "\<not> icase ?md" "\<not> mline ?md" by (simp_all add: mode_of_def)
  have T: "\<exists>z. KT (n0, c) = Some z
           \<and> fst z = (if Suc F = length s then Suc F else Suc (Suc F))
           \<and> snd z 1 = c 1 \<and> snd z 2 = Some (Suc n0, F)
           \<and> snd z 3 = Some (Suc (Suc n0), E) \<and> snd z 4 = Some (Suc E, F)" for c
    unfolding KT_def using md(1) l q1 s1 bd bt bn E ef fl q2 af by (rule php_tail)
  have run: "run (scanner ''php'' li) s i0
      = rmatch ?md s boundaryBefore (close_group 1 i0 KT) (i0, Map.empty)"
    by (simp add: run_def scanner_def getRegexRegex_def phpRegexRegex_def KT_def)
  from T[of "Map.empty(1 \<mapsto> (i0, n0))"] obtain z where
    z: "KT (n0, Map.empty(1 \<mapsto> (i0, n0))) = Some z"
      "fst z = (if Suc F = length s then Suc F else Suc (Suc F))" "snd z 1 = Some (i0, n0)"
      "snd z 2 = Some (Suc n0, F)" "snd z 3 = Some (Suc (Suc n0), E)" "snd z 4 = Some (Suc E, F)"
    by auto
  have "rmatch ?md s boundaryBefore (close_group 1 i0 KT) (i0, Map.empty) = Some z"
  proof (cases "n0 = 0 \<and> i0 = 0")
    case True
    with z(1) show ?thesis
      by (simp add: boundaryBefore_def orelse_def close_group_def)
  next
    case False
    with pre have n: "n0 = Suc i0" and b: "s ! i0 \<in> set whiteSpace \<union> set punct" by auto
    from n l E ef have li: "i0 < length s" by simp
    from boundary_not_quote[OF b] have nq: "s ! i0 \<notin> {CHR 0x27, CHR ''|'', CHR 0x22}" by simp
    have bol: "rmatch ?md s Bol (close_group 1 i0 KT) (i0, Map.empty) = None"
      using md nq li by (auto simp: close_group_def KT_def quote_def cls_match_def chr_match_def)
    show ?thesis
    proof (cases "s ! i0 \<in> set whiteSpace")
      case True
      with z(1) n li md bol show ?thesis
        unfolding boundaryBefore_def
        by (simp add: orelse_def close_group_def cls_match_def chr_match_def advance_def
            del: rmatch.simps(5))
    next
      case nw: False
      with b have "s ! i0 \<in> set punct" by simp
      with nw z(1) n li md bol show ?thesis
        unfolding boundaryBefore_def
        by (simp add: orelse_def close_group_def cls_match_def chr_match_def advance_def
            del: rmatch.simps(5))
    qed
  qed
  with run z show ?thesis by simp
qed

lemma sem_boundaryBefore_step:
  "sem md s boundaryBefore x y \<Longrightarrow> fst y \<le> Suc (fst x)"
  by (auto simp: boundaryBefore_def)

lemma php_run_slash:
  assumes "run (scanner ''php'' li) s i = Some y"
  shows "s ! Suc i = slash \<or> s ! Suc (Suc i) = slash"
proof -
  let ?md = "mode_of ''g''"
  let ?rest = "Seq quote (Seq (Grp 2 (delimited ''gimuy'')) (Seq quote (Grp 5 (boundaryAfter []))))"
  from assms have "sem ?md s phpRegexRegex (i, Map.empty) y"
    unfolding run_def scanner_def by (auto simp: getRegexRegex_def dest: rmatch_sound)
  then obtain y1 where 1: "sem ?md s (Grp 1 boundaryBefore) (i, Map.empty) y1"
    and r: "sem ?md s ?rest y1 y"
    unfolding phpRegexRegex_def sem.simps(7) by blast
  from 1 obtain m where m: "sem ?md s boundaryBefore (i, Map.empty) m"
    "y1 = (fst m, (snd m)(1 \<mapsto> (i, fst m)))"
    unfolding sem.simps(12) by auto
  from sem_boundaryBefore_step[OF m(1)] have le: "fst y1 \<le> Suc i" using m(2) by simp
  from sem_mono[OF m(1)] m(2) have ge: "i \<le> fst y1" by simp
  from r obtain t where t: "sem ?md s quote y1 t" and d: "sem ?md s (Seq (Grp 2 (delimited ''gimuy'')) (Seq quote (Grp 5 (boundaryAfter [])))) t y"
    unfolding sem.simps(7) by blast
  from sem_Cls[OF t[unfolded quote_def]] have ft: "fst t = Suc (fst y1)" by simp
  from d obtain u where "sem ?md s (Grp 2 (delimited ''gimuy'')) t u" unfolding sem.simps(7) by blast
  then obtain v where "sem ?md s (delimited ''gimuy'') t v" unfolding sem.simps(12) by blast
  from sem_delimited[OF this] have "s ! fst t = slash" by auto
  with ft le ge show ?thesis by (cases "fst y1 = i") (auto simp: le_Suc_eq)
qed

lemma quoted_literal_next:
  fixes pre bdy fl post :: string
  assumes s: "s = pre @ q1 # slash # bdy @ slash # fl @ q2 # post"
    and li: "(pre = [] \<and> li = 0) \<or> (li < length pre \<and> last pre \<in> set whiteSpace \<union> set punct)"
    and np: "slash \<notin> set (drop (Suc li) pre)"
    and ba: "post = [] \<or> hd post \<in> set whiteSpace \<union> set punct"
    and b0: "bdy \<noteq> []" and b1: "bodyText bdy"
    and f1: "set fl \<subseteq> set ''gimuy''"
    and q1: "q1 \<in> {CHR 0x27, CHR 0x22}" and q2: "q2 \<in> {CHR 0x27, CHR 0x22}"
  shows "\<exists>m. scanAll ''php'' s li = m # scanAll ''php'' s (length s - length (tl post))
           \<and> str m 3 = bdy \<and> str m 4 = fl
           \<and> str m 2 = slash # bdy @ slash # fl
           \<and> index m + length (str m 1) = length pre"
proof -
  define n0 where "n0 = length pre"
  define E where "E = Suc (Suc n0) + length bdy"
  define F where "F = E + Suc (length fl)"
  define i0 where "i0 = n0 - 1"
  have len: "length s = Suc F + length post" by (simp add: s n0_def E_def F_def)
  have nth: "s ! (n0 + k) = (q1 # slash # bdy @ slash # fl @ q2 # post) ! k" for k
    by (simp add: s n0_def nth_append)
  have c0: "s ! n0 = q1" using nth[of 0] by simp
  have c1: "s ! Suc n0 = slash" using nth[of 1] by simp
  have cf: "s ! (E + Suc k) = fl ! k" if "k < length fl" for k
    using nth[of "Suc (Suc (length bdy + Suc k))"] that by (simp add: E_def nth_append add.assoc)
  have cF: "s ! F = q2" using nth[of "Suc (Suc (length bdy + Suc (length fl)))"]
    by (simp add: E_def F_def nth_append add.assoc)
  have cA: "s ! Suc F = hd post" if "post \<noteq> []"
    using nth[of "Suc (Suc (length bdy + Suc (length fl + 1)))"] that
    by (cases post) (simp_all add: E_def F_def nth_append add.assoc)
  have l: "F < length s" using len by simp
  have d2: "drop (Suc (Suc n0)) s = bdy @ slash # (fl @ q2 # post)" by (simp add: s n0_def)
  have E': "E = Suc (Suc n0) + length bdy" by (simp add: E_def)
  have ef: "E < F" by (simp add: F_def)
  have fc: "s ! j \<in> set ''gimuy''" if "E < j" "j < F" for j
  proof -
    from that have k: "j - Suc E < length fl" "j = E + Suc (j - Suc E)"
      by (simp_all add: F_def)
    have "s ! j = s ! (E + Suc (j - Suc E))" by (rule arg_cong[OF k(2)])
    from this cf[OF k(1)] have "s ! j = fl ! (j - Suc E)" by (rule trans)
    with k(1) have "s ! j \<in> set fl" by simp
    with f1 show ?thesis by blast
  qed
  have af: "Suc F = length s \<or> s ! Suc F \<in> set whiteSpace \<union> set punct"
  proof (cases "post = []")
    case True
    with len show ?thesis by simp
  next
    case False
    with cA ba show ?thesis by simp
  qed
  have pre: "(n0 = 0 \<and> i0 = 0) \<or> (n0 = Suc i0 \<and> s ! i0 \<in> set whiteSpace \<union> set punct)"
  proof (cases "pre = []")
    case True
    then show ?thesis by (simp add: n0_def i0_def)
  next
    case False
    then have "n0 = Suc i0" by (simp add: n0_def i0_def)
    moreover from False have "s ! i0 = last pre"
      by (simp add: s i0_def n0_def nth_append last_conv_nth)
    ultimately show ?thesis using li False by simp
  qed
  from li have li0: "li \<le> i0" by (auto simp: i0_def n0_def)
  from c0 q1 have q1': "s ! n0 \<in> {CHR 0x27, CHR 0x22}" by simp
  from cF q2 have q2': "s ! F \<in> {CHR 0x27, CHR 0x22}" by simp
  from php_run[OF l q1' c1 d2 b1 b0 E' ef fc q2' af pre, of li] obtain y where
    y: "run (scanner ''php'' li) s i0 = Some y"
      "fst y = (if Suc F = length s then Suc F else Suc (Suc F))" "snd y 1 = Some (i0, n0)"
      "snd y 2 = Some (Suc n0, F)" "snd y 3 = Some (Suc (Suc n0), E)" "snd y 4 = Some (Suc E, F)"
    by blast
  have inpre: "s ! j \<noteq> slash" if "Suc li \<le> j" "j < n0" for j
  proof -
    from that have e: "s ! j = pre ! j" by (simp add: s n0_def nth_append)
    from that have a: "j - Suc li < length (drop (Suc li) pre)" by (simp add: n0_def)
    from that have b: "drop (Suc li) pre ! (j - Suc li) = pre ! j" by (simp add: n0_def)
    from nth_mem[OF a] b e have "s ! j \<in> set (drop (Suc li) pre)" by simp
    with np show ?thesis by metis
  qed
  have none: "run (scanner ''php'' li) s j = None" if "li \<le> j" "j < i0" for j
  proof (rule ccontr)
    assume "run (scanner ''php'' li) s j \<noteq> None"
    then obtain y' where "run (scanner ''php'' li) s j = Some y'" by blast
    from php_run_slash[OF this] have sl: "s ! Suc j = slash \<or> s ! Suc (Suc j) = slash" .
    from that have j: "Suc j < n0" "Suc li \<le> Suc j" by (simp_all add: i0_def)
    from inpre[OF j(2,1)] have 1: "s ! Suc j \<noteq> slash" .
    have 2: "s ! Suc (Suc j) \<noteq> slash"
    proof (cases "Suc (Suc j) = n0")
      case True
      with c0 q1 show ?thesis by (auto simp: slash_def)
    next
      case False
      with j have "Suc (Suc j) < n0" "Suc li \<le> Suc (Suc j)" by simp_all
      from inpre[OF this(2,1)] show ?thesis .
    qed
    from sl 1 2 show False by simp
  qed
  have i0l: "i0 \<le> length s" using l E' ef by (simp add: i0_def)
  with li0 have i0b: "i0 < li + Suc (length s - li)" "li \<le> length s" by simp_all
  have sf: "scan_from (run (scanner ''php'' li) s) li (Suc (length s - li)) = Some (i0, y)"
    using none y(1) li0 i0b(1) by (intro scan_from_first) simp_all
  have g: "global (scanner ''php'' li)" "\<not> sticky (scanner ''php'' li)"
    "lastIndex (scanner ''php'' li) = li"
    by (simp_all add: scanner_def global_def sticky_def)
  have ex: "exec (scanner ''php'' li) s
      = (Some (exec_array s i0 y), (scanner ''php'' li)\<lparr>lastIndex := fst y\<rparr>)"
    using i0b(2) by (simp add: exec_def Let_def g sf del: scan_from.simps)
  define m where "m = exec_array s i0 y"
  have fy: "fst y = length s - length (tl post)"
    using y(2) len by (cases post) simp_all
  from ex have sc: "scanAll ''php'' s li = m # scanAll ''php'' s (length s - length (tl post))"
    by (simp add: scanAll.simps[of "''php''" s li] m_def fy)
  have d1: "drop (Suc n0) s = (slash # bdy @ slash # fl) @ q2 # post" by (simp add: s n0_def)
  have "drop (Suc E) s = drop (Suc (length bdy)) (drop (Suc (Suc n0)) s)"
    by (simp add: E_def add.commute)
  then have d4: "drop (Suc E) s = fl @ q2 # post" by (simp add: d2)
  have m3: "str m 3 = bdy" using y(5) d2
    by (simp add: m_def str_def exec_array_def substring_def E_def)
  have m4: "str m 4 = fl" using y(6) d4
    by (simp add: m_def str_def exec_array_def substring_def F_def)
  have m2: "str m 2 = slash # bdy @ slash # fl" using y(4)
    by (simp add: m_def str_def exec_array_def substring_def d1 E_def F_def del: append_Cons append.simps)
  have "n0 \<le> length s" "i0 \<le> n0" using l E' ef by (simp_all add: i0_def)
  then have m1: "index m + length (str m 1) = n0" using y(3)
    by (simp add: m_def str_def exec_array_def substring_def)
  from sc m3 m4 m2 m1 show ?thesis by (auto simp: n0_def)
qed


text \<open>
  Claim C4 says that the PHP pattern recognises a literal if and only if it is enclosed
  in a matching pair of single or double quotes. Neither direction holds. The pattern
  has two independent character classes and nothing that ties the second to the
  first: the line \<^verbatim>\<open>'/a/"\<close> is recognised. And a literal in a matching pair of quotes
  can go unrecognised: in the line \<^verbatim>\<open>'/a/' '/b/'\<close> the match of the first literal
  takes the space as its closing boundary, so that the second literal, which alone
  on a line is recognised, has no opening boundary left.
\<close>

theorem php_quotes_counterexample:
  "map (\<lambda>m. (str m 3, str m 4)) (scanAll ''php'' (squote # ''/a/'' @ [dquote]) 0) = [(''a'', [])]
   \<and> patterns (phpDoc (squote # ''/a/'' @ [dquote])) = [(''a'', [])]
   \<and> map (\<lambda>m. (str m 3, str m 4))
         (scanAll ''php'' (squote # ''/a/'' @ squote # '' '' @ squote # ''/b/'' @ [squote]) 0)
       = [(''a'', [])]
   \<and> patterns (phpDoc (squote # ''/a/'' @ squote # '' '' @ squote # ''/b/'' @ [squote]))
       = [(''a'', [])]
   \<and> patterns (phpDoc (squote # ''/b/'' @ [squote])) = [(''b'', [])]"
  by code_simp

text \<open>
  Claim C4, amended. In the quoted-string dialect every recognised candidate has its
  delimiter-wrapped pattern immediately preceded and immediately followed by one
  character of the line, and each of the two, unless it is \<^verbatim>\<open>|\<close>, is a single or a
  double quote; the two need not be the same character. Conversely, let a line hold
  a delimiter-wrapped pattern between two quotes, each single or double, where the
  body is not empty and is made of escaped delimiters, bracketed classes and other
  characters as in \<open>bodyText\<close>, the flags are among \<^verbatim>\<open>gimuy\<close>, the text before the
  opening quote is empty or ends in a boundary character, and the text after the
  closing quote is empty or begins with a boundary character. Then a scan of the
  line that starts at a column before the opening quote (at column 0 if the quote
  opens the line), with no \<^verbatim>\<open>/\<close> between the column after the start and the
  opening quote, has this literal as its next candidate, with exactly this body and
  these flags, and goes on after the closing boundary character. For instance
  \<^verbatim>\<open>/a/\<close> in a pair of single quotes or of double quotes is recognised, two such
  literals with \<^verbatim>\<open>, \<close> between them are both recognised, and \<^verbatim>\<open>/a/\<close> without
  enclosing characters, or between two letters, is not.
\<close>

theorem php_candidate_enclosed:
  "(m \<in> set (scanAll ''php'' s li) \<longrightarrow>
       Suc (spanEnd m) < length s
       \<and> substring s (Suc (spanStart m)) (Suc (spanEnd m)) = str m 2
       \<and> str m 2 = slash # str m 3 @ slash # str m 4
       \<and> (s ! spanStart m \<noteq> CHR ''|'' \<longrightarrow> s ! spanStart m \<in> {squote, dquote})
       \<and> (s ! Suc (spanEnd m) \<noteq> CHR ''|'' \<longrightarrow> s ! Suc (spanEnd m) \<in> {squote, dquote}))
   \<and> (q1 \<in> {squote, dquote} \<and> q2 \<in> {squote, dquote}
       \<and> bdy \<noteq> [] \<and> bodyText bdy \<and> set fl \<subseteq> set ''gimuy''
       \<and> ((pre = [] \<and> start = 0)
            \<or> (start < length pre \<and> last pre \<in> set whiteSpace \<union> set punct))
       \<and> slash \<notin> set (drop (Suc start) pre)
       \<and> (post = [] \<or> hd post \<in> set whiteSpace \<union> set punct) \<longrightarrow>
       (\<exists>c. scanAll ''php'' (pre @ q1 # slash # bdy @ slash # fl @ q2 # post) start
               = c # scanAll ''php'' (pre @ q1 # slash # bdy @ slash # fl @ q2 # post)
                       (length (pre @ q1 # slash # bdy @ slash # fl @ q2 # post) - length (tl post))
            \<and> str c 3 = bdy \<and> str c 4 = fl \<and> str c 2 = slash # bdy @ slash # fl
            \<and> spanStart c = length pre))
   \<and> patterns (phpDoc (squote # ''/a/'' @ [squote])) = [(''a'', [])]
   \<and> patterns (phpDoc (dquote # ''/a/'' @ [dquote])) = [(''a'', [])]
   \<and> patterns (phpDoc (squote # ''/a/'' @ squote # '', '' @ squote # ''/b/'' @ [squote]))
       = [(''a'', []), (''b'', [])]
   \<and> patterns (phpDoc ''/a/'') = []
   \<and> patterns (phpDoc ''x/a/x'') = []"
proof -
  have q: "quoteLen ''php'' = 1" by (simp add: quoteLen_def)
  have c: "patterns (phpDoc (squote # ''/a/'' @ [squote])) = [(''a'', [])]"
    "patterns (phpDoc (dquote # ''/a/'' @ [dquote])) = [(''a'', [])]"
    "patterns (phpDoc (squote # ''/a/'' @ squote # '', '' @ squote # ''/b/'' @ [squote]))
       = [(''a'', []), (''b'', [])]"
    "patterns (phpDoc ''/a/'') = []"
    "patterns (phpDoc ''x/a/x'') = []"
    by code_simp+
  have 1: "Suc (spanEnd m) < length s
       \<and> substring s (Suc (spanStart m)) (Suc (spanEnd m)) = str m 2
       \<and> str m 2 = slash # str m 3 @ slash # str m 4
       \<and> (s ! spanStart m \<noteq> CHR ''|'' \<longrightarrow> s ! spanStart m \<in> {squote, dquote})
       \<and> (s ! Suc (spanEnd m) \<noteq> CHR ''|'' \<longrightarrow> s ! Suc (spanEnd m) \<in> {squote, dquote})"
    if "m \<in> set (scanAll ''php'' s li)"
    using candidate_text(4)[OF that q] span_shifted[OF that]
    by (auto simp: squote_def dquote_def)
  have 2: "\<exists>c. scanAll ''php'' (pre @ q1 # slash # bdy @ slash # fl @ q2 # post) start
               = c # scanAll ''php'' (pre @ q1 # slash # bdy @ slash # fl @ q2 # post)
                       (length (pre @ q1 # slash # bdy @ slash # fl @ q2 # post) - length (tl post))
            \<and> str c 3 = bdy \<and> str c 4 = fl \<and> str c 2 = slash # bdy @ slash # fl
            \<and> spanStart c = length pre"
    if h: "q1 \<in> {squote, dquote} \<and> q2 \<in> {squote, dquote}
       \<and> bdy \<noteq> [] \<and> bodyText bdy \<and> set fl \<subseteq> set ''gimuy''
       \<and> ((pre = [] \<and> start = 0)
            \<or> (start < length pre \<and> last pre \<in> set whiteSpace \<union> set punct))
       \<and> slash \<notin> set (drop (Suc start) pre)
       \<and> (post = [] \<or> hd post \<in> set whiteSpace \<union> set punct)"
  proof -
    from h have qq: "q1 \<in> {CHR 0x27, CHR 0x22}" "q2 \<in> {CHR 0x27, CHR 0x22}"
      by (simp_all add: squote_def dquote_def)
    from h have a: "(pre = [] \<and> start = 0)
            \<or> (start < length pre \<and> last pre \<in> set whiteSpace \<union> set punct)"
      "slash \<notin> set (drop (Suc start) pre)" "post = [] \<or> hd post \<in> set whiteSpace \<union> set punct"
      "bdy \<noteq> []" "bodyText bdy" "set fl \<subseteq> set ''gimuy''"
      by blast+
    from quoted_literal_next[OF refl a qq]
    show ?thesis unfolding spanStart_def by blast
  qed
  from 1 2 c show ?thesis by blast
qed

lemma mixed_candidate:
  "map spanStart (scanAll ''php'' (squote # ''/a/'' @ [dquote]) 0) = [0]
   \<and> map spanEnd (scanAll ''php'' (squote # ''/a/'' @ [dquote]) 0) = [3]"
  by code_simp

theorem php_candidate_enclosed_witness:
  "(\<exists>m. m \<in> set (scanAll ''php'' (squote # ''/a/'' @ [dquote]) 0)
       \<and> (squote # ''/a/'' @ [dquote]) ! spanStart m \<noteq> CHR ''|''
       \<and> (squote # ''/a/'' @ [dquote]) ! Suc (spanEnd m) \<noteq> CHR ''|''
       \<and> Suc (spanEnd m) < length (squote # ''/a/'' @ [dquote])
       \<and> substring (squote # ''/a/'' @ [dquote]) (Suc (spanStart m)) (Suc (spanEnd m)) = str m 2
       \<and> str m 2 = slash # str m 3 @ slash # str m 4
       \<and> (squote # ''/a/'' @ [dquote]) ! spanStart m \<in> {squote, dquote}
       \<and> (squote # ''/a/'' @ [dquote]) ! Suc (spanEnd m) \<in> {squote, dquote})
   \<and> bodyText ''[a/]+b'' \<and> set ''g'' \<subseteq> set ''gimuy''
   \<and> (0::nat) < length ''$r = '' \<and> last ''$r = '' \<in> set whiteSpace \<union> set punct
   \<and> slash \<notin> set (drop (Suc 0) ''$r = '')
   \<and> hd '';'' \<in> set whiteSpace \<union> set punct
   \<and> (\<exists>c. scanAll ''php'' (''$r = '' @ squote # slash # ''[a/]+b'' @ slash # ''g'' @ dquote # '';'') 0
               = c # scanAll ''php'' (''$r = '' @ squote # slash # ''[a/]+b'' @ slash # ''g'' @ dquote # '';'') 17
         \<and> str c 3 = ''[a/]+b'' \<and> str c 4 = ''g'' \<and> str c 2 = slash # ''[a/]+b'' @ slash # ''g''
         \<and> spanStart c = 5)"
proof -
  let ?s = "squote # ''/a/'' @ [dquote]"
  from mixed_candidate obtain m where m: "scanAll ''php'' ?s 0 = [m]"
    "spanStart m = 0" "spanEnd m = 3"
    by (cases "scanAll ''php'' ?s 0") auto
  then have i: "m \<in> set (scanAll ''php'' ?s 0)" by simp
  have n: "?s ! spanStart m \<noteq> CHR ''|''" "?s ! Suc (spanEnd m) \<noteq> CHR ''|''"
    by (simp_all add: m squote_def dquote_def)
  have "bodyText (CHR ''['' # ''a/'' @ CHR '']'' # ''+b'')"
    by (intro bodyText.intros) (simp_all add: slash_def bslash_def)
  then have b: "bodyText ''[a/]+b''" by simp
  have h: "set ''g'' \<subseteq> set ''gimuy''"
    "(0::nat) < length ''$r = ''" "last ''$r = '' \<in> set whiteSpace \<union> set punct"
    "slash \<notin> set (drop (Suc 0) ''$r = '')"
    "hd '';'' \<in> set whiteSpace \<union> set punct"
    by (simp_all add: slash_def whiteSpace_def punct_def)
  note T = php_candidate_enclosed[of m ?s 0 squote dquote "''[a/]+b''" "''g''" "''$r = ''" 0 "'';''"]
  from T i n have 1: "Suc (spanEnd m) < length ?s
       \<and> substring ?s (Suc (spanStart m)) (Suc (spanEnd m)) = str m 2
       \<and> str m 2 = slash # str m 3 @ slash # str m 4
       \<and> ?s ! spanStart m \<in> {squote, dquote}
       \<and> ?s ! Suc (spanEnd m) \<in> {squote, dquote}" by blast
  have e: "length (''$r = '' @ squote # slash # ''[a/]+b'' @ slash # ''g'' @ dquote # '';'') - length (tl '';'') = 17"
    "length ''$r = '' = 5" by simp_all
  from T b h have X: "\<exists>c. scanAll ''php'' (''$r = '' @ squote # slash # ''[a/]+b'' @ slash # ''g'' @ dquote # '';'') 0
               = c # scanAll ''php'' (''$r = '' @ squote # slash # ''[a/]+b'' @ slash # ''g'' @ dquote # '';'')
                       (length (''$r = '' @ squote # slash # ''[a/]+b'' @ slash # ''g'' @ dquote # '';'') - length (tl '';''))
         \<and> str c 3 = ''[a/]+b'' \<and> str c 4 = ''g'' \<and> str c 2 = slash # ''[a/]+b'' @ slash # ''g''
         \<and> spanStart c = length ''$r = ''" by blast
  have 2: "\<exists>c. scanAll ''php'' (''$r = '' @ squote # slash # ''[a/]+b'' @ slash # ''g'' @ dquote # '';'') 0
               = c # scanAll ''php'' (''$r = '' @ squote # slash # ''[a/]+b'' @ slash # ''g'' @ dquote # '';'') 17
         \<and> str c 3 = ''[a/]+b'' \<and> str c 4 = ''g'' \<and> str c 2 = slash # ''[a/]+b'' @ slash # ''g''
         \<and> spanStart c = 5" by (rule X[unfolded e])
  from i n 1 2 b h show ?thesis by blast
qed


section \<open>The literal at the caret\<close>

text \<open>
  The span of a candidate as the specification has it: the columns of the line at
  which its delimiter-to-flags text lies, after the boundary character and, in the
  quoted-string dialect, after the opening quote. The text between the two columns
  is the sigil, the delimiter, the pattern, the delimiter and the flags
  (\<open>delim_span\<close>). For the default and the Haxe pattern these are the columns the
  code computes (\<open>delim_code\<close>).
\<close>

definition delimStart :: "string \<Rightarrow> RegExpExecArray \<Rightarrow> nat" where
  "delimStart lang m = index m + length (str m 1) + quoteLen lang"

definition delimEnd :: "string \<Rightarrow> RegExpExecArray \<Rightarrow> nat" where
  "delimEnd lang m = delimStart lang m + length (str m 2)"

lemma delim_span:
  assumes "m \<in> set (scanAll lang s li)"
  shows "delimEnd lang m \<le> length s
       \<and> substring s (delimStart lang m) (delimEnd lang m) = sigil lang @ slash # str m 3 @ slash # str m 4"
  using candidate_text(1,2,3)[OF assms]
  by (simp add: delimStart_def delimEnd_def spanStart_def spanEnd_def add.commute add.left_commute)

lemma delim_code:
  "lang \<noteq> ''php'' \<Longrightarrow> delimStart lang m = spanStart m \<and> delimEnd lang m = spanEnd m"
  by (simp add: delimStart_def delimEnd_def spanStart_def spanEnd_def quoteLen_def)

lemma specDoc_candidates:
  "map (\<lambda>m. (index m, str m 1, spanStart m, spanEnd m, str m 3, str m 4))
     (scanAll ''javascript'' ''const r = /ab*/g;'' 0) = [(9, '' '', 10, 16, ''ab*'', ''g'')]
   \<and> lineAt specDoc 0 = Some ''const r = /ab*/g;''
   \<and> languageId specDoc = ''javascript''"
  by code_simp

lemma php_caret_shifted:
  "findRegexAtCaret RegExp_new
      \<lparr>document = phpDoc (squote # ''/ab/g'' @ [squote]), viewColumn = Some 1,
       anchor = Position 0 6\<rparr> = Some None
   \<and> map_option (map_option rmRange)
        (findRegexAtCaret RegExp_new
           \<lparr>document = phpDoc (squote # ''/ab/g'' @ [squote]), viewColumn = Some 1,
            anchor = Position 0 0\<rparr>)
       = Some (Some (Range (Position 0 0) (Position 0 5)))"
  by code_simp

text \<open>
  Claim C5 says that the tracker returns the first candidate whose delimiter-to-flags
  span ends at or after the caret and whose extent, the opening boundary character
  included, begins at or before the caret. The code compares the caret with
  \<^verbatim>\<open>match.index + match[1].length\<close>, the column after the boundary character. In the
  line \<^verbatim>\<open>const r = /ab*/g;\<close> the match of the literal begins at column 9 with a
  space and its span ends at column 16, the engine accepts the pattern, and the caret
  at column 9 gives none.
\<close>

theorem caret_on_boundary_character:
  "map (\<lambda>m. (index m, str m 1, spanEnd m)) (scanAll ''javascript'' ''const r = /ab*/g;'' 0)
     = [(9, '' '', 16)]
   \<and> RegExp_new ''ab*'' ''g'' \<noteq> None
   \<and> findRegexAtCaret RegExp_new \<lparr>document = specDoc, viewColumn = Some 1, anchor = Position 0 9\<rparr>
       = Some None"
  by code_simp

text \<open>
  Claim C5, amended, for the default and the prefix-sigil dialect. For every line and
  caret column \<^verbatim>\<open>findRegexAtCaret\<close> takes the first candidate, in source order, whose
  delimiter-to-flags span begins at or before the caret and ends at or after it, the
  boundary characters not counted, in the first 1000 characters of the line. If
  there is one and the constructor accepts its pattern and flags, the result is the
  literal made of the document, the constructed object and that span on the caret's
  line; otherwise the result is none. The candidates lie in the line from left to
  right without overlap, and the text of each span is the delimiter-to-flags text.
  For the line \<^verbatim>\<open>const r = /ab*/g;\<close> the caret at column 14 gives the literal, with
  the span from column 10 to column 16, and the caret at column 5 gives none. In the
  quoted-string dialect the columns the code compares with are those of claim C3,
  one to the left of the span (\<open>php_caret_shifted\<close>); the statement leaves that
  dialect out.
\<close>

theorem caret_selects_literal:
  "(languageId (document ed) \<noteq> ''php'' \<and> lineAt (document ed) (line (anchor ed)) = Some l \<longrightarrow>
      findRegexAtCaret ctor ed =
        Some (case find (\<lambda>m. delimStart (languageId (document ed)) m \<le> character (anchor ed)
                              \<and> character (anchor ed) \<le> delimEnd (languageId (document ed)) m)
                     (scanAll (languageId (document ed)) (take 1000 l) 0) of
                None \<Rightarrow> None
              | Some m \<Rightarrow>
                  (case ctor (str m 3) (str m 4) of
                     None \<Rightarrow> None
                   | Some rx \<Rightarrow>
                       Some \<lparr>rmDocument = document ed, regex = rx,
                             rmRange = Range (Position (line (anchor ed))
                                                (delimStart (languageId (document ed)) m))
                                             (Position (line (anchor ed))
                                                (delimEnd (languageId (document ed)) m))\<rparr>))
      \<and> (\<forall>m \<in> set (scanAll (languageId (document ed)) (take 1000 l) 0).
            delimEnd (languageId (document ed)) m \<le> length (take 1000 l)
            \<and> substring (take 1000 l) (delimStart (languageId (document ed)) m)
                  (delimEnd (languageId (document ed)) m)
                = sigil (languageId (document ed)) @ slash # str m 3 @ slash # str m 4)
      \<and> sorted_wrt (\<lambda>m m'. delimEnd (languageId (document ed)) m
                              \<le> delimStart (languageId (document ed)) m')
           (scanAll (languageId (document ed)) (take 1000 l) 0))
   \<and> findRegexAtCaret ctor \<lparr>document = specDoc, viewColumn = Some 1, anchor = Position 0 14\<rparr>
       = Some (map_option (\<lambda>rx. \<lparr>rmDocument = specDoc, regex = rx,
                                   rmRange = Range (Position 0 10) (Position 0 16)\<rparr>)
                 (ctor ''ab*'' ''g''))
   \<and> findRegexAtCaret ctor \<lparr>document = specDoc, viewColumn = Some 1, anchor = Position 0 5\<rparr>
       = Some None"
proof -
  have gen: "findRegexAtCaret ctor ed =
        Some (case find (\<lambda>m. delimStart (languageId (document ed)) m \<le> character (anchor ed)
                              \<and> character (anchor ed) \<le> delimEnd (languageId (document ed)) m)
                     (scanAll (languageId (document ed)) (take 1000 l) 0) of
                None \<Rightarrow> None
              | Some m \<Rightarrow>
                  (case ctor (str m 3) (str m 4) of
                     None \<Rightarrow> None
                   | Some rx \<Rightarrow>
                       Some \<lparr>rmDocument = document ed, regex = rx,
                             rmRange = Range (Position (line (anchor ed))
                                                (delimStart (languageId (document ed)) m))
                                             (Position (line (anchor ed))
                                                (delimEnd (languageId (document ed)) m))\<rparr>))"
    if h: "languageId (document ed) \<noteq> ''php''" "lineAt (document ed) (line (anchor ed)) = Some l"
    for ed l
  proof -
    note dc = delim_code[OF h(1)]
    have t: "caretTest ch = (\<lambda>m. delimStart (languageId (document ed)) m \<le> ch
                              \<and> ch \<le> delimEnd (languageId (document ed)) m)" for ch
      by (rule ext) (simp add: caretTest_def dc)
    show ?thesis using h(2)
      by (simp add: findRegexAtCaret_find t createRegexMatch_def createRegex_def dc
          spanStart_def spanEnd_def split: option.splits)
  qed
  have tx: "\<forall>m \<in> set (scanAll lang s 0).
            delimEnd lang m \<le> length s
            \<and> substring s (delimStart lang m) (delimEnd lang m)
                = sigil lang @ slash # str m 3 @ slash # str m 4" for lang s
    using delim_span by blast
  have srt: "sorted_wrt (\<lambda>m m'. delimEnd lang m \<le> delimStart lang m') (scanAll lang s 0)"
    if "lang \<noteq> ''php''" for lang s
    using scanAll_sorted[of lang s 0] delim_code[OF that] by simp
  from specDoc_candidates obtain m where m: "scanAll ''javascript'' ''const r = /ab*/g;'' 0 = [m]"
    "spanStart m = 10" "spanEnd m = 16" "str m 3 = ''ab*''" "str m 4 = ''g''"
    by (cases "scanAll ''javascript'' ''const r = /ab*/g;'' 0") auto
  have dm: "delimStart ''javascript'' m = 10" "delimEnd ''javascript'' m = 16"
    using delim_code[of "''javascript''" m] m by simp_all
  have e14: "findRegexAtCaret ctor \<lparr>document = specDoc, viewColumn = Some 1, anchor = Position 0 14\<rparr>
       = Some (map_option (\<lambda>rx. \<lparr>rmDocument = specDoc, regex = rx,
                                   rmRange = Range (Position 0 10) (Position 0 16)\<rparr>)
                 (ctor ''ab*'' ''g''))"
    using gen[of "\<lparr>document = specDoc, viewColumn = Some 1, anchor = Position 0 14\<rparr>"
        "''const r = /ab*/g;''"] specDoc_candidates m dm
    by (simp split: option.splits)
  have e5: "findRegexAtCaret ctor \<lparr>document = specDoc, viewColumn = Some 1, anchor = Position 0 5\<rparr>
       = Some None"
    using gen[of "\<lparr>document = specDoc, viewColumn = Some 1, anchor = Position 0 5\<rparr>"
        "''const r = /ab*/g;''"] specDoc_candidates m dm
    by simp
  from gen[of ed l] tx srt e14 e5 show ?thesis by blast
qed

theorem caret_selects_literal_witness:
  "languageId (document \<lparr>document = specDoc, viewColumn = Some 1, anchor = Position 0 14\<rparr>) \<noteq> ''php''
   \<and> lineAt specDoc 0 = Some ''const r = /ab*/g;''
   \<and> findRegexAtCaret RegExp_new \<lparr>document = specDoc, viewColumn = Some 1, anchor = Position 0 14\<rparr>
       = Some (Some \<lparr>rmDocument = specDoc,
                     regex = \<lparr>source = ''ab*'', flags = ''g'', lastIndex = 0,
                              prog = Seq (Chr CHR ''a'') (Seq (Star (Chr CHR ''b'')) Empty)\<rparr>,
                     rmRange = Range (Position 0 10) (Position 0 16)\<rparr>)
   \<and> substring ''const r = /ab*/g;'' 10 16 = ''/ab*/g''"
proof -
  let ?ed = "\<lparr>document = specDoc, viewColumn = Some 1, anchor = Position 0 14\<rparr>"
  have h: "languageId (document ?ed) \<noteq> ''php''" "lineAt (document ?ed) (line (anchor ?ed)) = Some ''const r = /ab*/g;''"
    using specDoc_candidates by simp_all
  have r: "RegExp_new ''ab*'' ''g'' = Some \<lparr>source = ''ab*'', flags = ''g'', lastIndex = 0,
                              prog = Seq (Chr CHR ''a'') (Seq (Star (Chr CHR ''b'')) Empty)\<rparr>"
    by code_simp
  from specDoc_candidates obtain m where m: "scanAll ''javascript'' ''const r = /ab*/g;'' 0 = [m]"
    "spanStart m = 10" "spanEnd m = 16" "str m 3 = ''ab*''" "str m 4 = ''g''"
    by (cases "scanAll ''javascript'' ''const r = /ab*/g;'' 0") auto
  have dm: "delimStart ''javascript'' m = 10" "delimEnd ''javascript'' m = 16"
    using delim_code[of "''javascript''" m] m by simp_all
  from caret_selects_literal[of ?ed "''const r = /ab*/g;''" RegExp_new] h
  have "findRegexAtCaret RegExp_new ?ed =
        Some (case find (\<lambda>m. delimStart (languageId (document ?ed)) m \<le> character (anchor ?ed)
                              \<and> character (anchor ?ed) \<le> delimEnd (languageId (document ?ed)) m)
                     (scanAll (languageId (document ?ed)) (take 1000 ''const r = /ab*/g;'') 0) of
                None \<Rightarrow> None
              | Some m \<Rightarrow>
                  (case RegExp_new (str m 3) (str m 4) of
                     None \<Rightarrow> None
                   | Some rx \<Rightarrow>
                       Some \<lparr>rmDocument = document ?ed, regex = rx,
                             rmRange = Range (Position (line (anchor ?ed))
                                                (delimStart (languageId (document ?ed)) m))
                                             (Position (line (anchor ?ed))
                                                (delimEnd (languageId (document ?ed)) m))\<rparr>))
      \<and> (\<forall>m \<in> set (scanAll (languageId (document ?ed)) (take 1000 ''const r = /ab*/g;'') 0).
            substring (take 1000 ''const r = /ab*/g;'') (delimStart (languageId (document ?ed)) m)
                  (delimEnd (languageId (document ?ed)) m)
                = sigil (languageId (document ?ed)) @ slash # str m 3 @ slash # str m 4)"
    by blast
  with specDoc_candidates m dm r h show ?thesis
    by (simp add: sigil_def slash_def)
qed


section \<open>A window with three views\<close>

text \<open>
  A concrete window for the scenarios below: editor 1 shows a JavaScript document
  with the literal \<^verbatim>\<open>/a/g\<close> and has the focus, with the caret inside the literal;
  editor 2 shows the preview document; editor 3 shows a second JavaScript document
  with the literal \<^verbatim>\<open>/b/\<close>. Nothing is decorated or tracked yet. The functions after
  it read a result off a state that a handler may have failed to produce.
\<close>

definition docA :: TextDocument where
  "docA = \<lparr>fsPath = ''/a.js'', languageId = ''javascript'', getText = ''a = /a/g;''\<rparr>"

definition docB :: TextDocument where
  "docB = \<lparr>fsPath = ''/b.js'', languageId = ''javascript'', getText = ''y = /b/;''\<rparr>"

definition docP :: TextDocument where
  "docP = \<lparr>fsPath = ''/tmp/p'', languageId = ''plaintext'', getText = ''a b a''\<rparr>"

definition window0 :: State where
  "window0 =
     \<lparr>editors = (\<lambda>e. if e = 1 then \<lparr>document = docA, viewColumn = Some 1, anchor = Position 0 5\<rparr>
                     else if e = 2 then \<lparr>document = docP, viewColumn = Some 2, anchor = Position 0 0\<rparr>
                     else \<lparr>document = docB, viewColumn = Some 1, anchor = Position 0 5\<rparr>),
      visibleTextEditors = [1, 2, 3],
      activeTextEditor = Some 1,
      decorations = (\<lambda>e ty. []),
      decorators = [],
      addGMEnabled = True,
      editorURI = Some ''/tmp/p'',
      outputChannel = [''/tmp/p''],
      activeRegex = None\<rparr>"

definition focus :: "TextEditor \<Rightarrow> State \<Rightarrow> State" where
  "focus e st = st\<lparr>activeTextEditor := Some e\<rparr>"

definition layer :: "TextEditor \<Rightarrow> DecorationType \<Rightarrow> State option \<Rightarrow> Range list option" where
  "layer e ty r = map_option (\<lambda>st. decorations st e ty) r"

definition tracked :: "State option \<Rightarrow> TextEditor list option" where
  "tracked r = map_option (\<lambda>st. map fst (decorators st)) r"


definition activePath :: "State option \<Rightarrow> string option" where
  "activePath r = Option.bind r (\<lambda>st. map_option (\<lambda>a. fsPath (rmDocument a)) (activeRegex st))"

definition recompute :: "State option \<Rightarrow> State option" where
  "recompute r = Option.bind r (updateDecorators RegExp_new None)"

definition litA :: RegexMatch where
  \<comment> \<open>the literal of the first document, as \<^verbatim>\<open>createRegexMatch\<close> builds it\<close>
  "litA = \<lparr>rmDocument = docA,
            regex = \<lparr>source = ''a'', flags = ''g'', lastIndex = 0, prog = Seq (Chr CHR ''a'') Empty\<rparr>,
            rmRange = Range (Position 0 4) (Position 0 8)\<rparr>"

section \<open>The view synchronizer\<close>

lemma mapDelete_absent: "map_of (mapDelete k m) k = None"
  by (induction m) (auto simp: mapDelete_def)

lemma close_step_decorations:
  "decorations
     (if fsPath (document (editors st ed)) = fsPath e then
        (let st' = st\<lparr>decorators := mapDelete ed (decorators st)\<rparr>
         in case map_of (decorators st') ed of
              Some dec' \<Rightarrow> st'\<lparr>decorations := dispose dec' (decorations st')\<rparr>
            | None \<Rightarrow> st')
      else st) = decorations st"
  by (simp add: mapDelete_absent)

lemma onDidCloseTextDocument_decorations:
  "decorations (onDidCloseTextDocument e st) = decorations st"
proof -
  have "decorations (fold (\<lambda>(ed, dec) st.
             if fsPath (document (editors st ed)) = fsPath e then
               (let st' = st\<lparr>decorators := mapDelete ed (decorators st)\<rparr>
                in case map_of (decorators st') ed of
                     Some dec' \<Rightarrow> st'\<lparr>decorations := dispose dec' (decorations st')\<rparr>
                   | None \<Rightarrow> st')
             else st) xs st) = decorations st" for xs
  proof (induction xs arbitrary: st)
    case Nil
    show ?case by simp
  next
    case (Cons x xs)
    obtain ed dec where x: "x = (ed, dec)" by (cases x)
    show ?case unfolding x fold_simps prod.case Cons.IH by (rule close_step_decorations)
  qed
  then show ?thesis by (simp add: onDidCloseTextDocument_def)
qed


text \<open>
  Claim C2 says that after a recomputation with an active regex, a visible view that
  is neither the preview nor a view of the source document has both layers empty.
  \<^verbatim>\<open>update\<close> clears the layers only when there is no active regex; with one, a view
  that is neither is left as it was. In the window above, the first recomputation
  decorates editor 1; the focus then moves to editor 3, whose caret is in the literal
  of the second document; after the second recomputation the active regex belongs to
  the second document and editor 1 still shows the spans of the first.
\<close>

theorem stale_origin_layer:
  "activePath (recompute (map_option (focus 3) (recompute (Some window0)))) = Some ''/b.js''
   \<and> layer 1 regexHighlight (recompute (map_option (focus 3) (recompute (Some window0))))
       = Some [Range (Position 0 0) (Position 0 1), Range (Position 0 5) (Position 0 6)]"
  by code_simp

text \<open>
  Claim C9 says that when the document of a tracked view closes, the view's layers are
  cleared and its entry leaves the tracking map. The handler deletes the entry and
  looks it up afterwards to dispose it, so nothing is disposed: after one
  recomputation of the window above and the closing of the first document, editor 1
  is no longer tracked and its origin-highlight layer still holds both spans.
\<close>

theorem close_leaves_layers:
  "layer 1 regexHighlight (map_option (onDidCloseTextDocument docA) (recompute (Some window0)))
     = Some [Range (Position 0 0) (Position 0 1), Range (Position 0 5) (Position 0 6)]
   \<and> tracked (recompute (Some window0)) = Some [1, 2, 3]
   \<and> tracked (map_option (onDidCloseTextDocument docA) (recompute (Some window0))) = Some [2, 3]"
  by code_simp

section \<open>The active regex across recomputations\<close>

text \<open>
  A recomputation may move \<^verbatim>\<open>lastIndex\<close> of the active regex object, since
  \<^verbatim>\<open>findMatches\<close> runs \<^verbatim>\<open>exec\<close> on it when no augmented copy is made. Nothing else
  of the active literal is changed by rendering.
\<close>

definition atRest :: "RegexMatch \<Rightarrow> RegexMatch" where
  \<comment> \<open>a literal without the scan position of its \<^verbatim>\<open>regex\<close> object\<close>
  "atRest a = a\<lparr>regex := (regex a)\<lparr>lastIndex := 0\<rparr>\<rparr>"

lemma exec_same: "(snd (exec rx s))\<lparr>lastIndex := 0\<rparr> = rx\<lparr>lastIndex := 0\<rparr>"
  by (auto simp: exec_def Let_def split: if_splits option.splits)

lemma skipEmpty_same: "(skipEmpty rx m)\<lparr>lastIndex := 0\<rparr> = rx\<lparr>lastIndex := 0\<rparr>"
  by (simp add: skipEmpty_def)

lemma findMatches_loop_same:
  "(snd (findMatches_loop rx d ms))\<lparr>lastIndex := 0\<rparr> = rx\<lparr>lastIndex := 0\<rparr>"
proof (induction rx d ms rule: findMatches_loop.induct)
  case (1 rx d matches)
  show ?case
  proof (cases "global rx \<or> matches = []")
    case False
    then show ?thesis by (simp add: findMatches_loop.simps[of rx d matches])
  next
    case True
    show ?thesis
    proof (cases "exec rx (getText d)")
      case (Pair r rx')
      have same: "rx'\<lparr>lastIndex := 0\<rparr> = rx\<lparr>lastIndex := 0\<rparr>"
        using exec_same[of rx "getText d"] Pair by simp
      show ?thesis
      proof (cases r)
        case None
        with Pair True same show ?thesis by (simp add: findMatches_loop.simps[of rx d matches])
      next
        case (Some m)
        from "1.IH"[OF True Pair[symmetric] Some]
        have "(snd (findMatches_loop (skipEmpty rx' m) d (matches @ [matchRange d m])))\<lparr>lastIndex := 0\<rparr>
            = rx\<lparr>lastIndex := 0\<rparr>"
          by (simp add: skipEmpty_same same)
        with Pair True Some show ?thesis by (simp add: findMatches_loop.simps[of rx d matches])
      qed
    qed
  qed
qed

lemma addGM_same_object: "addGM ctor rx gm = Some (False, rx') \<Longrightarrow> rx' = rx"
  by (auto simp: addGM_def Let_def split: if_splits)

lemma findMatches_same:
  assumes "findMatches ctor a d gm = Some (ms, rx')"
  shows "rx'\<lparr>lastIndex := 0\<rparr> = (regex a)\<lparr>lastIndex := 0\<rparr>"
proof -
  from assms obtain fresh rx where g: "addGM ctor (regex a) gm = Some (fresh, rx)"
    and r: "rx' = (if fresh then regex a else snd (findMatches_loop rx d []))"
    by (auto simp: findMatches_def split: option.splits prod.splits)
  show ?thesis
  proof (cases fresh)
    case True
    with r show ?thesis by simp
  next
    case False
    with g have "rx = regex a" by (simp add: addGM_same_object)
    with False r show ?thesis by (simp add: findMatches_loop_same)
  qed
qed

lemma update_active:
  assumes "update ctor this eds a uri gm decos = Some (decos', a')"
  shows "map_option atRest a' = map_option atRest a"
proof (cases a)
  case None
  with assms show ?thesis by (simp add: update_def)
next
  case (Some x)
  with assms obtain u where u: "uri = Some u" by (cases uri) (simp_all add: update_def)
  show ?thesis
  proof (cases "fsPath (document (eds (editor this))) = u
      \<or> fsPath (rmDocument x) = fsPath (document (eds (editor this)))")
    case False
    with assms Some u show ?thesis by (simp add: update_def Let_def)
  next
    case True
    with assms Some u obtain ms rx' where
      f: "findMatches ctor x (document (eds (editor this))) gm = Some (ms, rx')"
      and a': "a' = Some (x\<lparr>regex := rx'\<rparr>)"
      by (auto simp: update_def Let_def split: option.splits)
    from findMatches_same[OF f] a' Some show ?thesis by (simp add: atRest_def)
  qed
qed

lemma visitEditor_active:
  assumes "visitEditor ctor ed (st, rm) = Some (st', rm')"
  shows "map_option atRest (activeRegex st') = map_option atRest (activeRegex st)"
proof -
  define st1 where "st1 = (case map_of (decorators st) ed of
      None \<Rightarrow> st\<lparr>decorators := mapSet ed (RegexMatchDecorator ed) (decorators st)\<rparr>
    | Some dec \<Rightarrow> st)"
  have a1: "activeRegex st1 = activeRegex st" by (simp add: st1_def split: option.splits)
  from assms have "st' = st \<or> (\<exists>dec uri decos a.
      update ctor dec (editors st1) (activeRegex st1) uri (addGMEnabled st1) (decorations st1)
        = Some (decos, a) \<and> st' = st1\<lparr>decorations := decos, activeRegex := a\<rparr>)"
    unfolding visitEditor_def Let_def st1_def
    by (auto split: option.splits if_splits bool.splits)
  then show ?thesis
  proof
    assume "st' = st"
    then show ?thesis by simp
  next
    assume "\<exists>dec uri decos a.
      update ctor dec (editors st1) (activeRegex st1) uri (addGMEnabled st1) (decorations st1)
        = Some (decos, a) \<and> st' = st1\<lparr>decorations := decos, activeRegex := a\<rparr>"
    then obtain dec uri decos a where
      u: "update ctor dec (editors st1) (activeRegex st1) uri (addGMEnabled st1) (decorations st1)
        = Some (decos, a)" and s: "st' = st1\<lparr>decorations := decos, activeRegex := a\<rparr>"
      by blast
    from update_active[OF u] a1 s show ?thesis by simp
  qed
qed

lemma forEach_visit_active:
  "forEach (visitEditor ctor) eds sr = Some sr' \<Longrightarrow>
   map_option atRest (activeRegex (fst sr')) = map_option atRest (activeRegex (fst sr))"
proof (induction eds arbitrary: sr)
  case Nil
  then show ?case by simp
next
  case (Cons e eds)
  from Cons.prems obtain sr1 where v: "visitEditor ctor e sr = Some sr1"
    and f: "forEach (visitEditor ctor) eds sr1 = Some sr'"
    by (auto split: option.splits)
  from visitEditor_active[of ctor e "fst sr" "snd sr" "fst sr1" "snd sr1"] v
  have "map_option atRest (activeRegex (fst sr1)) = map_option atRest (activeRegex (fst sr))"
    by simp
  with Cons.IH[OF f] show ?case by simp
qed

lemma retire_active [simp]: "activeRegex (retire rm st) = activeRegex st"
  by (simp add: retire_def)

lemma updateDecorators_active:
  assumes "updateDecorators ctor mt st = Some st'"
  shows "\<exists>st1. (if isEditorEnabled st then chooseActive ctor mt st else Some st) = Some st1 \<and>
           map_option atRest (activeRegex st') = map_option atRest (activeRegex st1)"
proof (cases "isEditorEnabled st")
  case False
  with assms show ?thesis by (simp add: updateDecorators_def)
next
  case True
  with assms obtain st1 st2 rm where c: "chooseActive ctor mt st = Some st1"
    and f: "forEach (visitEditor ctor) (getVisibleTextEditors st1) (st1, decorators st1) = Some (st2, rm)"
    and s: "st' = retire rm st2"
    by (auto simp: updateDecorators_def split: option.splits)
  from forEach_visit_active[OF f] s c True show ?thesis by simp
qed

definition window1 :: State where
  \<comment> \<open>the window with the first literal active and the focus on the preview\<close>
  "window1 = window0\<lparr>activeTextEditor := Some 2, activeRegex := Some litA\<rparr>"

definition litB :: RegexMatch where
  \<comment> \<open>the literal of the third view's document, as \<^verbatim>\<open>findRegexes\<close> lists it\<close>
  "litB = \<lparr>rmDocument = docB,
            regex = \<lparr>source = ''b'', flags = [], lastIndex = 0, prog = Seq (Chr CHR ''b'') Empty\<rparr>,
            rmRange = Range (Position 0 4) (Position 0 7)\<rparr>"

text \<open>
  Claim C10 says that a recomputation that runs while no view has the focus, or while
  the focused view is in no supported language, leaves the active regex unchanged.
  \<^verbatim>\<open>updateDecorators\<close> looks at the focus only when it is called without a literal.
  Called with one, as the command behind the code lens does, it makes that literal
  the active regex whatever the focus: with the focus on the preview and the first
  literal active, the recomputation for the literal of the third view's document
  leaves that literal active.
\<close>

theorem explicit_literal_replaces_active:
  "isEditorEnabled window1
   \<and> activeTextEditor window1 = Some 2
   \<and> \<not> isLanguageSupported (document (editors window1 2))
   \<and> activeRegex window1 = Some litA
   \<and> findRegexes RegExp_new docB = [litB]
   \<and> Option.bind (updateDecorators RegExp_new (Some litB) window1) activeRegex = Some litB
   \<and> litB \<noteq> litA"
  by code_simp

text \<open>
  Claim C10, amended, for a recomputation that passes the check for the preview being
  visible and returns. If it is called without a literal while no editor has the
  focus, or while the focused editor's document is in no supported language, the
  active regex is not chosen anew: \<^verbatim>\<open>activeRegex\<close> is not assigned, and after the
  recomputation it is the same literal as before, up to the scan position of its
  regex object. If it is called with a literal, that literal is the active regex
  afterwards, up to the scan position, whatever the focus.
\<close>

theorem focus_elsewhere_keeps_active:
  assumes "updateDecorators ctor mt st = Some st'" and "isEditorEnabled st"
  shows "(mt = None \<and> (activeTextEditor st = None
            \<or> (\<exists>e. activeTextEditor st = Some e \<and> \<not> isLanguageSupported (document (editors st e))))
          \<longrightarrow> chooseActive ctor mt st = Some st
              \<and> map_option atRest (activeRegex st') = map_option atRest (activeRegex st))
       \<and> (\<forall>m. mt = Some m \<longrightarrow> map_option atRest (activeRegex st') = Some (atRest m))"
proof -
  have 1: "chooseActive ctor mt st = Some st
         \<and> map_option atRest (activeRegex st') = map_option atRest (activeRegex st)"
    if h: "mt = None \<and> (activeTextEditor st = None
            \<or> (\<exists>e. activeTextEditor st = Some e \<and> \<not> isLanguageSupported (document (editors st e))))"
  proof -
    from h have c: "chooseActive ctor mt st = Some st"
      by (auto simp: chooseActive_def)
    from updateDecorators_active[OF assms(1)] c assms(2)
    have "map_option atRest (activeRegex st') = map_option atRest (activeRegex st)"
      by (auto split: if_splits)
    with c show ?thesis by simp
  qed
  have 2: "map_option atRest (activeRegex st') = Some (atRest m)" if "mt = Some m" for m
  proof -
    from that have "chooseActive ctor mt st = Some (st\<lparr>activeRegex := Some m\<rparr>)"
      by (simp add: chooseActive_def)
    with updateDecorators_active[OF assms(1)] assms(2) show ?thesis by auto
  qed
  from 1 2 show ?thesis by blast
qed

theorem focus_elsewhere_keeps_active_witness:
  "isEditorEnabled window1
   \<and> activeTextEditor window1 = Some 2
   \<and> \<not> isLanguageSupported (document (editors window1 2))
   \<and> (\<exists>st'. updateDecorators RegExp_new None window1 = Some st'
         \<and> chooseActive RegExp_new None window1 = Some window1
         \<and> map_option atRest (activeRegex st') = map_option atRest (activeRegex window1))
   \<and> (\<exists>st'. updateDecorators RegExp_new (Some litB) window1 = Some st'
         \<and> map_option atRest (activeRegex st') = Some (atRest litB))"
proof -
  have h: "isEditorEnabled window1" "activeTextEditor window1 = Some 2"
    "\<not> isLanguageSupported (document (editors window1 2))"
    by code_simp+
  have "updateDecorators RegExp_new None window1 \<noteq> None" by code_simp
  then obtain st' where u: "updateDecorators RegExp_new None window1 = Some st'" by blast
  have "updateDecorators RegExp_new (Some litB) window1 \<noteq> None" by code_simp
  then obtain st2 where u2: "updateDecorators RegExp_new (Some litB) window1 = Some st2" by blast
  from focus_elsewhere_keeps_active[OF u h(1)] h(2,3)
  have 1: "chooseActive RegExp_new None window1 = Some window1
         \<and> map_option atRest (activeRegex st') = map_option atRest (activeRegex window1)" by blast
  from focus_elsewhere_keeps_active[OF u2 h(1)]
  have 2: "map_option atRest (activeRegex st2) = Some (atRest litB)" by blast
  from h u u2 1 2 show ?thesis by blast
qed

section \<open>What a view of the source document shows\<close>

definition keyed :: "(TextEditor \<times> RegexMatchDecorator) list \<Rightarrow> bool" where
  \<comment> \<open>every decorator of the map sits under its own editor, as \<^verbatim>\<open>updateDecorators\<close> enters it\<close>
  "keyed m = (\<forall>(k, dec) \<in> set m. editor dec = k)"

lemma keyed_mapDelete: "keyed m \<Longrightarrow> keyed (mapDelete k m)"
  by (auto simp: keyed_def mapDelete_def)

lemma set_mapSet: "set (mapSet k v m) \<subseteq> insert (k, v) (set m)"
  by (induction m) (auto split: if_splits)

lemma keyed_mapSet: "keyed m \<Longrightarrow> keyed (mapSet k (RegexMatchDecorator k) m)"
  using set_mapSet[of k "RegexMatchDecorator k" m] by (fastforce simp: keyed_def)




text \<open>What one step of the loop over the visible editors does.\<close>

definition relevant :: "State \<Rightarrow> TextEditor \<Rightarrow> bool" where
  \<comment> \<open>the condition under which the loop updates an editor's decorator\<close>
  "relevant st ed = (isLanguageSupported (document (editors st ed))
                     \<or> editorURI st = Some (fsPath (document (editors st ed))))"


lemma visitEditor_skip:
  "visitEditor ctor ed (st, rm) = Some (st', rm') \<Longrightarrow> \<not> relevant st ed \<Longrightarrow> st' = st"
  unfolding visitEditor_def Let_def relevant_def
  by (auto split: option.splits if_splits bool.splits)

lemma visitEditor_update:
  assumes "visitEditor ctor ed (st, rm) = Some (st', rm')" "relevant st ed"
  shows "\<exists>dec decos a.
           (map_of (decorators st) ed = Some dec \<or> dec = RegexMatchDecorator ed)
           \<and> update ctor dec (editors st) (activeRegex st) (editorURI st) (addGMEnabled st)
                 (decorations st) = Some (decos, a)
           \<and> decorations st' = decos \<and> activeRegex st' = a
           \<and> editors st' = editors st \<and> editorURI st' = editorURI st
           \<and> addGMEnabled st' = addGMEnabled st
           \<and> decorators st' = (case map_of (decorators st) ed of
                                  None \<Rightarrow> mapSet ed (RegexMatchDecorator ed) (decorators st)
                                | Some d \<Rightarrow> decorators st)"
proof -
  have c: "(if isLanguageSupported (document (editors st ed)) then Some True
            else map_option (\<lambda>u. fsPath (document (editors st ed)) = u) (editorURI st)) = Some True"
    using assms(2) by (auto simp: relevant_def)
  show ?thesis
  proof (cases "map_of (decorators st) ed")
    case None
    with assms(1) c show ?thesis
      unfolding visitEditor_def Let_def by (auto split: option.splits)
  next
    case (Some dec)
    with assms(1) c show ?thesis
      unfolding visitEditor_def Let_def by (auto split: option.splits)
  qed
qed

lemma visitEditor_frame:
  assumes "visitEditor ctor x (st, rm) = Some (st', rm')"
  shows "editors st' = editors st" "editorURI st' = editorURI st"
    "addGMEnabled st' = addGMEnabled st" "keyed (decorators st) \<Longrightarrow> keyed (decorators st')"
proof -
  have "editors st' = editors st \<and> editorURI st' = editorURI st
      \<and> addGMEnabled st' = addGMEnabled st \<and> (keyed (decorators st) \<longrightarrow> keyed (decorators st'))"
  proof (cases "relevant st x")
    case False
    from visitEditor_skip[OF assms False] show ?thesis by simp
  next
    case True
    from visitEditor_update[OF assms True] obtain dec decos a where
      "editors st' = editors st" "editorURI st' = editorURI st"
      "addGMEnabled st' = addGMEnabled st"
      "decorators st' = (case map_of (decorators st) x of
                           None \<Rightarrow> mapSet x (RegexMatchDecorator x) (decorators st)
                         | Some d \<Rightarrow> decorators st)"
      by blast
    then show ?thesis by (auto simp: keyed_mapSet split: option.splits)
  qed
  then show "editors st' = editors st" "editorURI st' = editorURI st"
    "addGMEnabled st' = addGMEnabled st" "keyed (decorators st) \<Longrightarrow> keyed (decorators st')"
    by simp_all
qed





lemma chooseActive_frame:
  "chooseActive ctor mt st = Some st1 \<Longrightarrow> \<exists>r. st1 = st\<lparr>activeRegex := r\<rparr>"
  by (cases mt; cases "activeTextEditor st")
    (auto simp: chooseActive_def split: if_splits intro: exI[of _ "activeRegex st"])


lemma forEach_frame:
  assumes "forEach (visitEditor ctor) eds (st, rm) = Some (st', rm')"
  shows "editors st' = editors st \<and> editorURI st' = editorURI st
       \<and> addGMEnabled st' = addGMEnabled st
       \<and> (keyed (decorators st) \<longrightarrow> keyed (decorators st'))"
  using assms
proof (induction eds arbitrary: st rm)
  case Nil
  then show ?case by simp
next
  case (Cons x eds)
  from Cons.prems obtain st1 rm1 where v: "visitEditor ctor x (st, rm) = Some (st1, rm1)"
    and f: "forEach (visitEditor ctor) eds (st1, rm1) = Some (st', rm')"
    by (auto split: option.splits)
  from visitEditor_frame[OF v] Cons.IH[OF f] show ?case by simp
qed








lemma updateDecorators_keyed:
  assumes "updateDecorators ctor mt st = Some st'" "keyed (decorators st)"
  shows "keyed (decorators st')"
proof (cases "isEditorEnabled st")
  case False
  with assms show ?thesis by (simp add: updateDecorators_def)
next
  case True
  with assms(1) obtain st1 st2 rm where c: "chooseActive ctor mt st = Some st1"
    and f: "forEach (visitEditor ctor) (getVisibleTextEditors st1) (st1, decorators st1) = Some (st2, rm)"
    and s: "st' = retire rm st2"
    by (auto simp: updateDecorators_def split: option.splits)
  from chooseActive_frame[OF c] obtain r where "st1 = st\<lparr>activeRegex := r\<rparr>" by blast
  with assms(2) forEach_frame[OF f] have k: "keyed (decorators st2)" by simp
  have "keyed (fold (\<lambda>(k, dec). mapDelete k) xs m)" if "keyed m" for xs :: "(TextEditor \<times> RegexMatchDecorator) list" and m
    using that by (induction xs arbitrary: m) (auto simp: keyed_mapDelete)
  with k s show ?thesis by (simp add: retire_def)
qed







section \<open>Rejected patterns\<close>

lemma fold_scanLoop:
  "fold (\<lambda>(i, l) matches. scanLoop ctor d i (take 1000 l) 0 matches) xs acc
     = acc @ concat (map (\<lambda>(i, l). List.map_filter (createRegexMatch ctor d i)
                                      (scanAll (languageId d) (take 1000 l) 0)) xs)"
  by (induction xs arbitrary: acc) (auto simp: scanLoop_scanAll)

lemma findRegexes_candidates:
  "findRegexes ctor d
     = concat (map (\<lambda>(i, l). List.map_filter (createRegexMatch ctor d i)
                                (scanAll (languageId d) (take 1000 l) 0))
                 (enumerate 0 (splitLines (getText d))))"
  by (simp add: findRegexes_def fold_scanLoop)

definition constructed :: "Constructor \<Rightarrow> RegExp \<Rightarrow> bool" where
  \<comment> \<open>an object that the constructor returned, at whatever scan position it is now\<close>
  "constructed ctor rx =
     (\<exists>pattern fl rx0. ctor pattern fl = Some rx0 \<and> rx\<lparr>lastIndex := 0\<rparr> = rx0\<lparr>lastIndex := 0\<rparr>)"

lemma map_filter_concat:
  "List.map_filter f xs = concat (map (\<lambda>x. case f x of None \<Rightarrow> [] | Some y \<Rightarrow> [y]) xs)"
  by (induction xs) (auto simp: List.map_filter_simps split: option.splits)

lemma createRegexMatch_case:
  "createRegexMatch ctor d ln m =
     (case ctor (str m 3) (str m 4) of
        None \<Rightarrow> None
      | Some rx \<Rightarrow> Some \<lparr>rmDocument = d, regex = rx,
                          rmRange = Range (Position ln (spanStart m)) (Position ln (spanEnd m))\<rparr>)"
  by (simp add: createRegexMatch_def createRegex_def spanStart_def spanEnd_def split: option.splits)

lemma createRegexMatch_constructed:
  "createRegexMatch ctor d ln m = Some r \<Longrightarrow> constructed ctor (regex r)"
proof -
  assume "createRegexMatch ctor d ln m = Some r"
  then have "ctor (str m 3) (str m 4) = Some (regex r)"
    unfolding createRegexMatch_case by (auto split: option.splits)
  then show ?thesis unfolding constructed_def by blast
qed

lemma findRegexAtCaret_constructed:
  assumes "findRegexAtCaret ctor ed = Some (Some r)"
  shows "constructed ctor (regex r)"
proof -
  from assms obtain m where "createRegexMatch ctor (document ed) (line (anchor ed)) m = Some r"
    unfolding findRegexAtCaret_find by (auto split: option.splits)
  then show ?thesis by (rule createRegexMatch_constructed)
qed

lemma findRegexes_constructed:
  assumes "r \<in> set (findRegexes ctor d)"
  shows "constructed ctor (regex r)"
proof -
  from assms obtain i m where "createRegexMatch ctor d i m = Some r"
    unfolding findRegexes_candidates by (auto simp: List.map_filter_def)
  then show ?thesis by (rule createRegexMatch_constructed)
qed

lemma constructed_atRest:
  assumes "atRest a' = atRest a" "constructed ctor (regex a)"
  shows "constructed ctor (regex a')"
proof -
  from assms(1) have "(regex a')\<lparr>lastIndex := 0\<rparr> = (regex a)\<lparr>lastIndex := 0\<rparr>"
    by (simp add: atRest_def) (metis RegexMatch.select_convs(2) RegexMatch.surjective RegexMatch.update_convs(2))
  with assms(2) show ?thesis by (simp add: constructed_def)
qed

lemma chooseActive_constructed:
  assumes "chooseActive ctor mt st = Some st1"
    and "\<And>a. mt = Some a \<Longrightarrow> constructed ctor (regex a)"
    and "\<And>a. activeRegex st = Some a \<Longrightarrow> constructed ctor (regex a)"
    and "activeRegex st1 = Some a"
  shows "constructed ctor (regex a)"
proof (cases mt)
  case (Some x)
  with assms(1,4) have "a = x" by (auto simp: chooseActive_def)
  with assms(2) Some show ?thesis by simp
next
  case None
  show ?thesis
  proof (cases "activeRegex st1 = activeRegex st")
    case True
    with assms(3,4) show ?thesis by simp
  next
    case False
    with assms(1) None obtain e where "findRegexAtCaret ctor (editors st e) = Some (activeRegex st1)"
      by (auto simp: chooseActive_def split: option.splits if_splits)
    with assms(4) show ?thesis by (simp add: findRegexAtCaret_constructed)
  qed
qed

lemma visitEditor_output:
  assumes "visitEditor ctor x (st, rm) = Some (st', rm')"
  shows "outputChannel st' = outputChannel st"
  using assms unfolding visitEditor_def Let_def
  by (auto split: option.splits if_splits bool.splits)

lemma forEach_output:
  "forEach (visitEditor ctor) eds (st, rm) = Some (st', rm') \<Longrightarrow> outputChannel st' = outputChannel st"
proof (induction eds arbitrary: st rm)
  case Nil
  then show ?case by simp
next
  case (Cons x eds)
  from Cons.prems obtain st1 rm1 where v: "visitEditor ctor x (st, rm) = Some (st1, rm1)"
    and f: "forEach (visitEditor ctor) eds (st1, rm1) = Some (st', rm')"
    by (auto split: option.splits)
  from visitEditor_output[OF v] Cons.IH[OF f] show ?case by simp
qed

lemma updateDecorators_output:
  assumes "updateDecorators ctor mt st = Some st'"
  shows "outputChannel st' = outputChannel st"
proof (cases "isEditorEnabled st")
  case False
  with assms show ?thesis by (simp add: updateDecorators_def)
next
  case True
  with assms obtain st1 st2 rm where c: "chooseActive ctor mt st = Some st1"
    and f: "forEach (visitEditor ctor) (getVisibleTextEditors st1) (st1, decorators st1) = Some (st2, rm)"
    and s: "st' = retire rm st2"
    by (auto simp: updateDecorators_def split: option.splits)
  from chooseActive_frame[OF c] obtain r where "st1 = st\<lparr>activeRegex := r\<rparr>" by blast
  with forEach_output[OF f] s show ?thesis by (simp add: retire_def)
qed

text \<open>
  Claim C8, for every constructor: a candidate whose pattern and flags the
  constructor rejects is discarded. What \<^verbatim>\<open>findRegexes\<close> lists is, line by line and
  in the order of the candidates, one literal for each candidate that the
  constructor accepts, holding the object it returned, and nothing for a candidate
  it rejects. What \<^verbatim>\<open>findRegexAtCaret\<close> returns is the literal of the candidate that
  passes the caret test if the constructor accepts it, and none, not an exception,
  if it rejects it. Every literal that either of them gives holds an object the
  constructor returned. A recomputation writes nothing to the output channel, the
  only place the extension reports to; and if the literal it is given, which the
  code lens takes from \<^verbatim>\<open>findRegexes\<close>, and the active regex before it hold
  constructed objects, so does the active regex after it.
\<close>

theorem rejected_candidate_discarded:
  "findRegexes ctor d
     = concat (map (\<lambda>(i, l). concat (map (\<lambda>m.
          case ctor (str m 3) (str m 4) of
            None \<Rightarrow> []
          | Some rx \<Rightarrow> [\<lparr>rmDocument = d, regex = rx,
                          rmRange = Range (Position i (spanStart m)) (Position i (spanEnd m))\<rparr>])
          (scanAll (languageId d) (take 1000 l) 0)))
        (enumerate 0 (splitLines (getText d))))
   \<and> (\<forall>l. lineAt (document ed) (line (anchor ed)) = Some l \<longrightarrow>
         findRegexAtCaret ctor ed =
           Some (case find (caretTest (character (anchor ed)))
                        (scanAll (languageId (document ed)) (take 1000 l) 0) of
                   None \<Rightarrow> None
                 | Some m \<Rightarrow>
                     (case ctor (str m 3) (str m 4) of
                        None \<Rightarrow> None
                      | Some rx \<Rightarrow>
                          Some \<lparr>rmDocument = document ed, regex = rx,
                                rmRange = Range (Position (line (anchor ed)) (spanStart m))
                                                (Position (line (anchor ed)) (spanEnd m))\<rparr>)))
   \<and> (\<forall>r \<in> set (findRegexes ctor d). constructed ctor (regex r))
   \<and> (\<forall>r. findRegexAtCaret ctor ed = Some (Some r) \<longrightarrow> constructed ctor (regex r))
   \<and> (\<forall>st'. updateDecorators ctor mt st = Some st' \<longrightarrow>
         outputChannel st' = outputChannel st
         \<and> ((\<forall>a. mt = Some a \<longrightarrow> constructed ctor (regex a))
              \<and> (\<forall>a. activeRegex st = Some a \<longrightarrow> constructed ctor (regex a))
            \<longrightarrow> (\<forall>a. activeRegex st' = Some a \<longrightarrow> constructed ctor (regex a))))"
proof (intro conjI impI allI ballI)
  have "(\<lambda>(i, l). List.map_filter (createRegexMatch ctor d i) (scanAll (languageId d) (take 1000 l) 0))
      = (\<lambda>(i, l). concat (map (\<lambda>m.
          case ctor (str m 3) (str m 4) of
            None \<Rightarrow> []
          | Some rx \<Rightarrow> [\<lparr>rmDocument = d, regex = rx,
                          rmRange = Range (Position i (spanStart m)) (Position i (spanEnd m))\<rparr>])
          (scanAll (languageId d) (take 1000 l) 0)))"
    by (intro ext) (auto simp: map_filter_concat createRegexMatch_case split: option.splits
        intro!: arg_cong[of _ _ concat])
  then show "findRegexes ctor d
     = concat (map (\<lambda>(i, l). concat (map (\<lambda>m.
          case ctor (str m 3) (str m 4) of
            None \<Rightarrow> []
          | Some rx \<Rightarrow> [\<lparr>rmDocument = d, regex = rx,
                          rmRange = Range (Position i (spanStart m)) (Position i (spanEnd m))\<rparr>])
          (scanAll (languageId d) (take 1000 l) 0)))
        (enumerate 0 (splitLines (getText d))))"
    by (simp add: findRegexes_candidates)
next
  fix l assume "lineAt (document ed) (line (anchor ed)) = Some l"
  then show "findRegexAtCaret ctor ed =
           Some (case find (caretTest (character (anchor ed)))
                        (scanAll (languageId (document ed)) (take 1000 l) 0) of
                   None \<Rightarrow> None
                 | Some m \<Rightarrow>
                     (case ctor (str m 3) (str m 4) of
                        None \<Rightarrow> None
                      | Some rx \<Rightarrow>
                          Some \<lparr>rmDocument = document ed, regex = rx,
                                rmRange = Range (Position (line (anchor ed)) (spanStart m))
                                                (Position (line (anchor ed)) (spanEnd m))\<rparr>))"
    by (simp add: findRegexAtCaret_find createRegexMatch_case split: option.splits)
next
  fix r assume "r \<in> set (findRegexes ctor d)"
  then show "constructed ctor (regex r)" by (rule findRegexes_constructed)
next
  fix r assume "findRegexAtCaret ctor ed = Some (Some r)"
  then show "constructed ctor (regex r)" by (rule findRegexAtCaret_constructed)
next
  fix st' assume "updateDecorators ctor mt st = Some st'"
  then show "outputChannel st' = outputChannel st" by (rule updateDecorators_output)
next
  fix st' a
  assume u: "updateDecorators ctor mt st = Some st'"
    and inv: "(\<forall>a. mt = Some a \<longrightarrow> constructed ctor (regex a))
        \<and> (\<forall>a. activeRegex st = Some a \<longrightarrow> constructed ctor (regex a))"
    and a: "activeRegex st' = Some a"
  from updateDecorators_active[OF u] obtain st1 where
    c: "(if isEditorEnabled st then chooseActive ctor mt st else Some st) = Some st1" and
    e: "map_option atRest (activeRegex st') = map_option atRest (activeRegex st1)"
    by blast
  from e a obtain a1 where a1: "activeRegex st1 = Some a1" "atRest a = atRest a1"
    by (cases "activeRegex st1") auto
  have "constructed ctor (regex a1)"
  proof (cases "isEditorEnabled st")
    case True
    with c have "chooseActive ctor mt st = Some st1" by simp
    from chooseActive_constructed[OF this _ _ a1(1)] inv show ?thesis by blast
  next
    case False
    with c a1 inv show ?thesis by simp
  qed
  with a1(2) show "constructed ctor (regex a)" by (rule constructed_atRest)
qed

definition docG :: TextDocument where
  "docG = \<lparr>fsPath = ''/g.js'', languageId = ''javascript'', getText = ''x = /a/gg;''\<rparr>"

lemma rejected_example:
  "map (\<lambda>m. (str m 3, str m 4, spanStart m, spanEnd m)) (scanAll ''javascript'' ''x = /a/gg;'' 0)
     = [(''a'', ''gg'', 4, 9)]
   \<and> RegExp_new ''a'' ''gg'' = None
   \<and> lineAt docG 0 = Some ''x = /a/gg;''
   \<and> findRegexes RegExp_new docG = []
   \<and> findRegexAtCaret RegExp_new \<lparr>document = docG, viewColumn = Some 1, anchor = Position 0 6\<rparr> = Some None"
  by code_simp


lemma accepted_example:
  "findRegexes RegExp_new docA = [litA]
   \<and> findRegexAtCaret RegExp_new (editors window0 1) = Some (Some litA)"
  by code_simp

theorem rejected_candidate_discarded_witness:
  "map (\<lambda>m. (str m 3, str m 4, spanStart m, spanEnd m)) (scanAll ''javascript'' ''x = /a/gg;'' 0)
     = [(''a'', ''gg'', 4, 9)]
   \<and> RegExp_new ''a'' ''gg'' = None
   \<and> findRegexes RegExp_new docG = []
   \<and> lineAt docG 0 = Some ''x = /a/gg;''
   \<and> findRegexAtCaret RegExp_new \<lparr>document = docG, viewColumn = Some 1, anchor = Position 0 6\<rparr>
       = Some None
   \<and> litA \<in> set (findRegexes RegExp_new docA)
   \<and> findRegexAtCaret RegExp_new (editors window0 1) = Some (Some litA)
   \<and> constructed RegExp_new (regex litA)
   \<and> activeRegex window1 = Some litA
   \<and> (\<exists>st'. updateDecorators RegExp_new (Some litA) window1 = Some st'
         \<and> outputChannel st' = outputChannel window1
         \<and> (\<exists>a. activeRegex st' = Some a \<and> constructed RegExp_new (regex a)))"
proof -
  let ?ed = "\<lparr>document = docG, viewColumn = Some 1, anchor = Position 0 6\<rparr>"
  note T = rejected_candidate_discarded[of RegExp_new docG ?ed "Some litA" window1]
  note r = rejected_example
  from r obtain m where m: "scanAll ''javascript'' ''x = /a/gg;'' 0 = [m]"
    "str m 3 = ''a''" "str m 4 = ''gg''" "spanStart m = 4" "spanEnd m = 9"
    by (cases "scanAll ''javascript'' ''x = /a/gg;'' 0") auto
  have d: "languageId docG = ''javascript''" "splitLines (getText docG) = [''x = /a/gg;'']"
    by code_simp+
  from T have "findRegexes RegExp_new docG
     = concat (map (\<lambda>(i, l). concat (map (\<lambda>m.
          case RegExp_new (str m 3) (str m 4) of
            None \<Rightarrow> []
          | Some rx \<Rightarrow> [\<lparr>rmDocument = docG, regex = rx,
                          rmRange = Range (Position i (spanStart m)) (Position i (spanEnd m))\<rparr>])
          (scanAll (languageId docG) (take 1000 l) 0)))
        (enumerate 0 (splitLines (getText docG))))" by blast
  with d m r have 1: "findRegexes RegExp_new docG = []" by simp
  from r have l: "lineAt (document ?ed) (line (anchor ?ed)) = Some ''x = /a/gg;''" by simp
  with T have "findRegexAtCaret RegExp_new ?ed =
           Some (case find (caretTest (character (anchor ?ed)))
                        (scanAll (languageId (document ?ed)) (take 1000 ''x = /a/gg;'') 0) of
                   None \<Rightarrow> None
                 | Some m \<Rightarrow>
                     (case RegExp_new (str m 3) (str m 4) of
                        None \<Rightarrow> None
                      | Some rx \<Rightarrow>
                          Some \<lparr>rmDocument = document ?ed, regex = rx,
                                rmRange = Range (Position (line (anchor ?ed)) (spanStart m))
                                                (Position (line (anchor ?ed)) (spanEnd m))\<rparr>))"
    by blast
  with d m r have 2: "findRegexAtCaret RegExp_new ?ed = Some None"
    by (simp add: caretTest_def)
  from accepted_example have i: "litA \<in> set (findRegexes RegExp_new docA)"
    "findRegexAtCaret RegExp_new (editors window0 1) = Some (Some litA)" by simp_all
  from rejected_candidate_discarded[of RegExp_new docA "editors window0 1"] i
  have c: "constructed RegExp_new (regex litA)" by blast
  have w: "activeRegex window1 = Some litA" by (simp add: window1_def)
  have "Option.bind (updateDecorators RegExp_new (Some litA) window1) activeRegex \<noteq> None" by code_simp
  then obtain st' a where u: "updateDecorators RegExp_new (Some litA) window1 = Some st'"
    and a: "activeRegex st' = Some a"
    by (cases "updateDecorators RegExp_new (Some litA) window1") auto
  have "(\<forall>a. Some litA = Some a \<longrightarrow> constructed RegExp_new (regex a))
        \<and> (\<forall>a. activeRegex window1 = Some a \<longrightarrow> constructed RegExp_new (regex a))"
    using c w by simp
  with T u a have 3: "outputChannel st' = outputChannel window1" "constructed RegExp_new (regex a)"
    by blast+
  from r 1 2 i c w u a 3 show ?thesis by blast
qed


section \<open>The match evaluator\<close>



























end
